theory Spec2Isabelle
  imports Main "HOL-Library.Sublist" "HOL-Library.Multiset"
begin

section \<open>landevlist: the neighbour-table scan and its reachability filter\<close>

text \<open>
  The development follows \<^verbatim>\<open>landevlist.py\<close>. Text is a \<^typ>\<open>string\<close>, one
  \<^typ>\<open>char\<close> per character (code points below 256; the output of \<^verbatim>\<open>ip neigh\<close>
  is ASCII). A Python \<^verbatim>\<open>dict\<close> is an association list in insertion order whose keys
  are pairwise distinct. Exceptions are values of \<open>error + 'a\<close>, with \<open>Inl\<close> the
  exception. External programs are an environment that the functions read, and every
  program started is recorded in a trace of events. The order in which the workers of
  the pool start their tasks is chosen by the environment as well.
\<close>

subsection \<open>Exceptions\<close>

datatype error = IndexError | KeyError | OSError

subsection \<open>Dictionaries in insertion order\<close>

type_synonym ('k, 'v) dict = "('k \<times> 'v) list"

text \<open>\<^verbatim>\<open>d[k] = v\<close>: an existing key keeps its place and takes the new value, a new key
  goes to the end.\<close>

fun dict_set :: "'k \<Rightarrow> 'v \<Rightarrow> ('k, 'v) dict \<Rightarrow> ('k, 'v) dict" where
  "dict_set k v [] = [(k, v)]"
| "dict_set k v ((k', v') # d) =
     (if k' = k then (k, v) # d else (k', v') # dict_set k v d)"

text \<open>\<^verbatim>\<open>d.pop(k)\<close> with no default: raises \<^verbatim>\<open>KeyError\<close> on a missing key.\<close>

fun dict_pop :: "'k \<Rightarrow> ('k, 'v) dict \<Rightarrow> error + ('k, 'v) dict" where
  "dict_pop k [] = Inl KeyError"
| "dict_pop k ((k', v') # d) =
     (if k' = k then Inr d
      else (case dict_pop k d of Inl e \<Rightarrow> Inl e | Inr d' \<Rightarrow> Inr ((k', v') # d')))"

definition keys :: "('k, 'v) dict \<Rightarrow> 'k list" where
  "keys d = map fst d"

definition values_of :: "('k, 'v) dict \<Rightarrow> 'v list" where
  "values_of d = map snd d"

subsection \<open>The pattern \<^verbatim>\<open>([0-9A-Fa-f]{2}[:-]){5}([0-9A-Fa-f]{2})\<close>\<close>

definition is_hex :: "char \<Rightarrow> bool" where
  "is_hex c = (c \<in> set ''0123456789ABCDEFabcdef'')"

definition is_sep :: "char \<Rightarrow> bool" where
  "is_sep c = (c = CHR '':'' \<or> c = CHR ''-'')"

text \<open>\<^verbatim>\<open>[0-9A-Fa-f]{2}\<close> at the head of the text: the rest of the text after the two
  digits, or no match.\<close>

fun hex2 :: "string \<Rightarrow> string option" where
  "hex2 (a # b # r) = (if is_hex a \<and> is_hex b then Some r else None)"
| "hex2 _ = None"

text \<open>One group \<^verbatim>\<open>[0-9A-Fa-f]{2}[:-]\<close>.\<close>

definition hex2_sep :: "string \<Rightarrow> string option" where
  "hex2_sep s =
     (case hex2 s of
        None \<Rightarrow> None
      | Some [] \<Rightarrow> None
      | Some (c # r) \<Rightarrow> (if is_sep c then Some r else None))"

text \<open>The group repeated \<open>n\<close> times.\<close>

fun groups :: "nat \<Rightarrow> string \<Rightarrow> string option" where
  "groups 0 s = Some s"
| "groups (Suc n) s = (case hex2_sep s of None \<Rightarrow> None | Some r \<Rightarrow> groups n r)"

text \<open>The whole pattern anchored at the head of the text; \<open>group(0)\<close> is the text it
  consumed, which is always seventeen characters.\<close>

definition mac_match_at :: "string \<Rightarrow> string option" where
  "mac_match_at s =
     (case groups 5 s of
        None \<Rightarrow> None
      | Some r \<Rightarrow> (case hex2 r of None \<Rightarrow> None | Some r' \<Rightarrow> Some (take (length s - length r') s)))"

text \<open>\<^verbatim>\<open>mac_pattern.search(line)\<close>: the match at the leftmost position where the
  pattern matches, \<open>None\<close> when there is none.\<close>

fun mac_search :: "string \<Rightarrow> string option" where
  "mac_search [] = mac_match_at []"
| "mac_search (c # cs) =
     (case mac_match_at (c # cs) of Some m \<Rightarrow> Some m | None \<Rightarrow> mac_search cs)"

text \<open>The pattern in words: six groups of two hexadecimal digits, separated by
  \<^verbatim>\<open>:\<close> or \<^verbatim>\<open>-\<close>.\<close>

definition is_mac :: "string \<Rightarrow> bool" where
  "is_mac m =
     (length m = 17 \<and>
      list_all (\<lambda>i. if i mod 3 = 2 then is_sep (m ! i) else is_hex (m ! i)) [0..<17])"

text \<open>The same condition on a text of any length: every third character, from the
  third, is a separator and the others are hexadecimal digits.\<close>

definition grp_ok :: "string \<Rightarrow> bool" where
  "grp_ok g = (\<forall>i<length g. if i mod 3 = 2 then is_sep (g ! i) else is_hex (g ! i))"

text \<open>A line contains an address when some part of it has that form.\<close>

definition contains_mac :: "string \<Rightarrow> bool" where
  "contains_mac l = (\<exists>m. is_mac m \<and> sublist m l)"

subsection \<open>Splitting text\<close>

text \<open>\<^verbatim>\<open>s.split("\n")\<close>: the pieces between line feeds, always at least one.\<close>

fun split_nl :: "string \<Rightarrow> string list" where
  "split_nl [] = [[]]"
| "split_nl (c # cs) =
     (if c = CHR 0x0A then [] # split_nl cs
      else (case split_nl cs of [] \<Rightarrow> [[c]] | l # ls \<Rightarrow> (c # l) # ls))"

text \<open>The characters \<^verbatim>\<open>str.split()\<close> treats as whitespace, among the code points
  below 256.\<close>

definition is_space :: "char \<Rightarrow> bool" where
  "is_space c =
     (let n = (of_char c :: nat)
      in (9 \<le> n \<and> n \<le> 13) \<or> (28 \<le> n \<and> n \<le> 32) \<or> n = 133 \<or> n = 160)"

text \<open>\<^verbatim>\<open>s.split()\<close>: the maximal runs of characters that are not whitespace.\<close>

function split_ws :: "string \<Rightarrow> string list" where
  "split_ws [] = []"
| "split_ws (c # cs) =
     (if is_space c then split_ws cs
      else (c # takeWhile (\<lambda>x. \<not> is_space x) cs) # split_ws (dropWhile (\<lambda>x. \<not> is_space x) cs))"
  by pat_completeness auto
termination
  by (relation "measure length") (auto simp: length_dropWhile_le less_Suc_eq_le)

subsection \<open>The parse step\<close>

text \<open>\<^verbatim>\<open>list(filter(len, proc.stdout.split("\n")))\<close>.\<close>

definition procresultlines :: "string \<Rightarrow> string list" where
  "procresultlines out = filter (\<lambda>l. length l \<noteq> 0) (split_nl out)"

text \<open>The loop over the lines. \<^verbatim>\<open>line.split()[0]\<close> raises \<^verbatim>\<open>IndexError\<close> when the
  split is empty.\<close>

fun parse_loop :: "string list \<Rightarrow> (string, string) dict \<Rightarrow> error + (string, string) dict" where
  "parse_loop [] lan_dev = Inr lan_dev"
| "parse_loop (line # lines) lan_dev =
     (case mac_search line of
        None \<Rightarrow> parse_loop lines lan_dev
      | Some mac \<Rightarrow>
          (case split_ws line of
             [] \<Rightarrow> Inl IndexError
           | ip # _ \<Rightarrow> parse_loop lines (dict_set mac ip lan_dev)))"

subsection \<open>The environment and the trace\<close>

text \<open>What the host answers. \<open>which\<close> is \<^verbatim>\<open>shutil.which\<close>. \<open>ip_neigh_show\<close> is what
  \<^verbatim>\<open>subprocess.run(["ip", "-4", "neigh", "show"], ...)\<close> does: it raises when the
  program cannot be started, otherwise it completes with this standard output.
  \<open>ping_run n ip\<close> is what \<^verbatim>\<open>subprocess.run(["ping", "-c", "1", "-W", "1", ip], ...)\<close>
  does for the \<open>n\<close>-th ping of the run (counted from 0): it raises when the program
  cannot be started, otherwise it completes with this return code. No \<^verbatim>\<open>check\<close> and
  no \<^verbatim>\<open>timeout\<close> argument is passed, so a completed process never raises.
  \<open>pool_pick k\<close> is the choice the operating system makes at the \<open>k\<close>-th start of a
  task in a pool: which of the workers that hold an unfinished chunk runs next.\<close>

record env =
  which :: "string \<Rightarrow> string option"
  ip_neigh_show :: "error + string"
  ping_run :: "nat \<Rightarrow> string \<Rightarrow> error + int"
  pool_pick :: "nat \<Rightarrow> nat"

datatype event = Run_ip | Pool_start nat | Run_ping string

text \<open>The addresses pinged so far, in order.\<close>

fun pinged :: "event list \<Rightarrow> string list" where
  "pinged [] = []"
| "pinged (Run_ping ip # tr) = ip # pinged tr"
| "pinged (_ # tr) = pinged tr"

definition MULTIPROC_PCOUNT :: nat where
  "MULTIPROC_PCOUNT = 5"

definition NPLUS :: nat where
  "NPLUS = 43"

subsection \<open>The probe\<close>

definition is_ip_reachable :: "env \<Rightarrow> string \<Rightarrow> event list \<Rightarrow> (error + bool) \<times> event list" where
  "is_ip_reachable E ip tr =
     (case ping_run E (length (pinged tr)) ip of
        Inl e \<Rightarrow> (Inl e, tr @ [Run_ping ip])
      | Inr returncode \<Rightarrow> (Inr (returncode = 0), tr @ [Run_ping ip]))"

subsection \<open>The coordinator\<close>

text \<open>\<^verbatim>\<open>pool.map(f, xs)\<close> of \<^verbatim>\<open>multiprocessing\<close>, for a pool of \<open>MULTIPROC_PCOUNT\<close>
  workers. The library cuts \<open>xs\<close> into chunks, queues the chunks in order, and each free
  worker takes the next chunk and calls \<open>f\<close> on its elements one after the other. The
  size of a chunk is \<^verbatim>\<open>len(xs)\<close> divided by four times the number of workers, rounded
  up.\<close>

definition chunksize_for :: "nat \<Rightarrow> nat" where
  "chunksize_for n =
     (if n = 0 then 0
      else if n mod (MULTIPROC_PCOUNT * 4) = 0 then n div (MULTIPROC_PCOUNT * 4)
      else n div (MULTIPROC_PCOUNT * 4) + 1)"

text \<open>\<^verbatim>\<open>Pool._get_tasks\<close>: consecutive slices of that size; none for an empty list.\<close>

function get_tasks :: "nat \<Rightarrow> 'a list \<Rightarrow> 'a list list" where
  "get_tasks chunksize xs =
     (if chunksize = 0 \<or> xs = [] then []
      else take chunksize xs # get_tasks chunksize (drop chunksize xs))"
  by pat_completeness auto
termination
  by (relation "measure (\<lambda>(chunksize, xs). length xs)") auto

declare get_tasks.simps [simp del]

text \<open>The order in which the elements are started when no call raises. At most
  \<open>MULTIPROC_PCOUNT\<close> chunks are in progress, the first unfinished ones of the queue; at
  each step the environment picks one of them, and its next element is started. Every
  interleaving that the workers can produce comes from some \<open>pick\<close>.\<close>

function schedule :: "(nat \<Rightarrow> nat) \<Rightarrow> nat \<Rightarrow> 'a list list \<Rightarrow> 'a list" where
  "schedule pick k chunks =
     (let unfinished = filter (\<lambda>c. c \<noteq> []) chunks
      in if unfinished = [] then []
         else (let j = pick k mod min MULTIPROC_PCOUNT (length unfinished)
               in case unfinished ! j of
                    [] \<Rightarrow> []
                  | x # rest \<Rightarrow> x # schedule pick (Suc k) (unfinished[j := rest])))"
  by pat_completeness auto
termination
proof (relation "measure (\<lambda>(pick, k, chunks). length (concat chunks))", goal_cases)
  case 1
  show ?case by simp
next
  case (2 pick k chunks unfinished j x rest)
  have f: "length (concat (filter (\<lambda>c. c \<noteq> []) cs)) = length (concat cs)"
    for cs :: "'a list list" by (induction cs) auto
  from 2 have u: "unfinished = filter (\<lambda>c. c \<noteq> []) chunks" and ne: "unfinished \<noteq> []"
    and jd: "j = pick k mod min MULTIPROC_PCOUNT (length unfinished)"
    and xr: "unfinished ! j = x # rest" by simp_all
  from ne have "0 < min MULTIPROC_PCOUNT (length unfinished)"
    by (simp add: MULTIPROC_PCOUNT_def)
  then have "j < min MULTIPROC_PCOUNT (length unfinished)"
    unfolding jd by (rule mod_less_divisor)
  then have j: "j < length unfinished" by simp
  then have "sum_list ((map length unfinished)[j := length rest]) =
               sum_list (map length unfinished) + length rest - map length unfinished ! j"
    by (simp add: sum_list_update)
  moreover from j have "map length unfinished ! j \<le> sum_list (map length unfinished)"
    by (intro member_le_sum_list) simp_all
  ultimately have "sum_list ((map length unfinished)[j := length rest]) <
                     sum_list (map length unfinished)"
    using j xr by simp
  then have "length (concat (unfinished[j := rest])) < length (concat unfinished)"
    by (simp add: length_concat map_update)
  with f [of chunks] u show ?case by simp
qed

declare schedule.simps [simp del]

text \<open>Running the tasks in that order. Each task carries its position in \<open>xs\<close>, and
  its result is stored at that position, which is how \<^verbatim>\<open>map\<close> returns the results in
  the order of \<open>xs\<close>. When a call raises, the worker gives up its chunk: the remaining
  elements of the chunk (the elements \<open>i\<close> with the same \<open>i div chunksize\<close>) are never
  started, while the other chunks run to their end. Leaving those elements out of the
  order changes nothing for the other workers, since the chunk ends where it would have
  ended had they taken no time. The exception kept is the first one raised.\<close>

fun run_tasks ::
  "('a \<Rightarrow> event list \<Rightarrow> (error + 'b) \<times> event list) \<Rightarrow> nat \<Rightarrow> (nat \<times> 'a) list \<Rightarrow>
     nat list \<Rightarrow> error option \<Rightarrow> 'b option list \<Rightarrow> event list \<Rightarrow>
     error option \<times> 'b option list \<times> event list" where
  "run_tasks f chunksize [] failed err res tr = (err, res, tr)"
| "run_tasks f chunksize ((i, x) # order) failed err res tr =
     (if i div chunksize \<in> set failed then run_tasks f chunksize order failed err res tr
      else (case f x tr of
              (Inl e, tr') \<Rightarrow>
                run_tasks f chunksize order (i div chunksize # failed)
                  (case err of None \<Rightarrow> Some e | Some e0 \<Rightarrow> Some e0) res tr'
            | (Inr y, tr') \<Rightarrow>
                run_tasks f chunksize order failed err (res[i := Some y]) tr'))"

text \<open>The results present, in the order of their positions. When no call raised,
  every position holds its result.\<close>

fun filled :: "'b option list \<Rightarrow> 'b list" where
  "filled [] = []"
| "filled (None # rs) = filled rs"
| "filled (Some y # rs) = y # filled rs"

text \<open>The elements of \<open>xs\<close> with their positions, in the order in which the pool starts
  them when no call raises.\<close>

definition start_order :: "(nat \<Rightarrow> nat) \<Rightarrow> 'a list \<Rightarrow> (nat \<times> 'a) list" where
  "start_order pick xs =
     schedule pick 0 (get_tasks (chunksize_for (length xs)) (zip [0..<length xs] xs))"

text \<open>\<^verbatim>\<open>map\<close> waits for all chunks, then returns the list of results, or raises the
  exception it kept.\<close>

definition pool_map ::
  "(nat \<Rightarrow> nat) \<Rightarrow> ('a \<Rightarrow> event list \<Rightarrow> (error + 'b) \<times> event list) \<Rightarrow> 'a list \<Rightarrow> event list
     \<Rightarrow> (error + 'b list) \<times> event list" where
  "pool_map pick f xs tr =
     (case run_tasks f (chunksize_for (length xs)) (start_order pick xs) [] None
             (replicate (length xs) None) tr of
        (None, res, tr') \<Rightarrow> (Inr (filled res), tr')
      | (Some e, res, tr') \<Rightarrow> (Inl e, tr'))"

text \<open>\<^verbatim>\<open>for i in range(len(result)): if (not result[i]): lan_dev.pop(all_macs[i])\<close>.
  Indexing the tuple out of range raises \<^verbatim>\<open>IndexError\<close>.\<close>

function pop_unreachable ::
  "string list \<Rightarrow> bool list \<Rightarrow> nat \<Rightarrow> (string, string) dict \<Rightarrow> error + (string, string) dict" where
  "pop_unreachable all_macs result i lan_dev =
     (if i < length result then
        (if \<not> result ! i then
           (if i < length all_macs then
              (case dict_pop (all_macs ! i) lan_dev of
                 Inl e \<Rightarrow> Inl e
               | Inr lan_dev' \<Rightarrow> pop_unreachable all_macs result (Suc i) lan_dev')
            else Inl IndexError)
         else pop_unreachable all_macs result (Suc i) lan_dev)
      else Inr lan_dev)"
  by pat_completeness auto
termination
  by (relation "measure (\<lambda>(all_macs, result, i, lan_dev). length result - i)") auto

declare pop_unreachable.simps [simp del]

text \<open>The filtering stage of \<^verbatim>\<open>get_all_reachable_lan_devs\<close>, from the creation of the
  pool to the return.\<close>

definition filterReachable ::
  "env \<Rightarrow> (string, string) dict \<Rightarrow> event list \<Rightarrow> (error + (string, string) dict) \<times> event list" where
  "filterReachable E lan_dev tr =
     (let all_macs = keys lan_dev;
          all_ips = values_of lan_dev
      in case pool_map (pool_pick E) (is_ip_reachable E) all_ips
                (tr @ [Pool_start MULTIPROC_PCOUNT]) of
           (Inl e, tr') \<Rightarrow> (Inl e, tr')
         | (Inr result, tr') \<Rightarrow> (pop_unreachable all_macs result 0 lan_dev, tr'))"

definition get_all_reachable_lan_devs ::
  "env \<Rightarrow> event list \<Rightarrow> (error + (string, string) dict) \<times> event list" where
  "get_all_reachable_lan_devs E tr =
     (case ip_neigh_show E of
        Inl e \<Rightarrow> (Inl e, tr @ [Run_ip])
      | Inr out \<Rightarrow>
          (if procresultlines out = [] then (Inr [], tr @ [Run_ip])
           else (case parse_loop (procresultlines out) [] of
                   Inl e \<Rightarrow> (Inl e, tr @ [Run_ip])
                 | Inr lan_dev \<Rightarrow> filterReachable E lan_dev (tr @ [Run_ip]))))"

subsection \<open>The command line\<close>

text \<open>Each element of an output is the argument of one \<^verbatim>\<open>print\<close>.\<close>

definition show_help :: "string list" where
  "show_help =
     [''Usage: landevlist'',
      ''Lists devices connected to the local network (LAN) with their MAC and IPv4 addresses.'' @ [CHR 0x0A],
      ''Output is formatted in a tabular structure for readability.'',
      ''Only devices with an active connection will be displayed.'' @ [CHR 0x0A],
      ''Copyright (c) 2025-Present Arijit Kumar Das <arijitkdgit.official@gmail.com> under MIT License.'' @ [CHR 0x0A]]"

definition show_missing_dependency :: "string list" where
  "show_missing_dependency =
     [''landevlist: A required program was not found on your system.'',
      ''Required programs are: ip, ping'',
      ''Make sure these packages are installed:'',
      ''* iputils-ping (on Debian/Ubuntu), or'',
      ''  iputils (on Arch/RHEL/Fedora)'',
      ''* iproute2 (on Debian/Ubuntu/Arch), or'',
      ''  iproute (on RHEL/Fedora)'',
      ''Please note that package name may vary based on your distro repository upstream.'']"

text \<open>\<^verbatim>\<open>not shutil.which(req)\<close>: true for \<^verbatim>\<open>None\<close> and for the empty path.\<close>

fun prereq_loop :: "env \<Rightarrow> string list \<Rightarrow> bool" where
  "prereq_loop E [] = True"
| "prereq_loop E (req # reqs) =
     (case which E req of
        None \<Rightarrow> False
      | Some path \<Rightarrow> (if path = [] then False else prereq_loop E reqs))"

definition prereq_installed :: "env \<Rightarrow> bool" where
  "prereq_installed E = prereq_loop E [''ip'', ''ping'']"

text \<open>One row of the table and the border under it. A count below zero repeats the
  blank no times in Python, as the truncated subtraction does here.\<close>

fun table_rows :: "(string, string) dict \<Rightarrow> string list" where
  "table_rows [] = []"
| "table_rows ((dev, ip) # rest) =
     (''|  '' @ dev @ ''  |  '' @ ip @ replicate (17 - length ip) CHR '' '' @ ''|'')
       # replicate NPLUS CHR ''+'' # table_rows rest"

text \<open>The result of a run: what was printed, how the process ended (\<open>Inr n\<close> is exit
  status \<open>n\<close>, \<open>Inl e\<close> an exception nobody caught) and the trace.\<close>

definition main :: "string list \<Rightarrow> env \<Rightarrow> event list \<Rightarrow> string list \<times> (error + int) \<times> event list" where
  "main argv E tr =
     (if length argv > 1 \<and> argv ! 1 \<in> set [''help'', ''-help'', ''--help'', ''/help'']
      then (show_help, Inr 0, tr)
      else if \<not> prereq_installed E then (show_missing_dependency, Inr 1, tr)
      else (case get_all_reachable_lan_devs E tr of
              (Inl e, tr') \<Rightarrow> ([], Inl e, tr')
            | (Inr reachable_devs, tr') \<Rightarrow>
                (if reachable_devs = []
                 then ([''No active devices on local network.''], Inr 0, tr')
                 else ([replicate NPLUS CHR ''+'',
                        ''|      Device MAC     |    IPv4 Address   |'',
                        replicate NPLUS CHR ''+''] @ table_rows reachable_devs,
                       Inr 0, tr'))))"

text \<open>The exit status of the process: the interpreter ends with status 1 after an
  exception nobody caught.\<close>

definition exit_status :: "error + int \<Rightarrow> int" where
  "exit_status r = (case r of Inl e \<Rightarrow> 1 | Inr n \<Rightarrow> n)"

subsection \<open>The vocabulary of the specification\<close>

text \<open>The address that the last line yielding \<open>mac\<close> starts with: the lines from which
  the parse step extracts \<open>mac\<close> are collected, and the first token of the last of
  them is taken.\<close>

definition last_line_ip :: "string \<Rightarrow> string list \<Rightarrow> string option" where
  "last_line_ip mac lines =
     (case filter (\<lambda>l. mac_search l = Some mac) lines of
        [] \<Rightarrow> None
      | l # ls \<Rightarrow> (case split_ws (last (l # ls)) of [] \<Rightarrow> None | ip # _ \<Rightarrow> Some ip))"

text \<open>The normal form the specification names for an address: lower case, with colons.
  The source has no counterpart of it.\<close>

definition lower_char :: "char \<Rightarrow> char" where
  "lower_char c =
     (if 65 \<le> (of_char c :: nat) \<and> (of_char c :: nat) \<le> 90 then char_of (of_char c + (32 :: nat)) else c)"

definition spec_normalize_mac :: "string \<Rightarrow> string" where
  "spec_normalize_mac m = map (\<lambda>c. if c = CHR ''-'' then CHR '':'' else lower_char c) m"

text \<open>The place of the first \<open>x\<close> in a list.\<close>

fun position :: "'a \<Rightarrow> 'a list \<Rightarrow> nat" where
  "position x [] = 0"
| "position x (y # ys) = (if x = y then 0 else Suc (position x ys))"

text \<open>The number of pings started before the one for the candidate at position \<open>i\<close>,
  when the filtering stage runs after the trace \<open>tr\<close>.\<close>

definition launch_number :: "env \<Rightarrow> (string, string) dict \<Rightarrow> event list \<Rightarrow> nat \<Rightarrow> nat" where
  "launch_number E lan_dev tr i =
     length (pinged tr) + position i (map fst (start_order (pool_pick E) (values_of lan_dev)))"

text \<open>The outcome of each candidate's own ping, by position: the ping for the
  candidate at position \<open>i\<close> is the one started for that candidate's address, and its
  outcome is true when it returns 0.\<close>

definition probe_outcomes :: "env \<Rightarrow> (string, string) dict \<Rightarrow> event list \<Rightarrow> bool list" where
  "probe_outcomes E lan_dev tr =
     map (\<lambda>i. ping_run E (launch_number E lan_dev tr i) (snd (lan_dev ! i)) = Inr 0)
       [0..<length lan_dev]"

text \<open>Every one of those pings can be started and completes with a return code.\<close>

definition pings_complete :: "env \<Rightarrow> (string, string) dict \<Rightarrow> event list \<Rightarrow> bool" where
  "pings_complete E lan_dev tr =
     list_all (\<lambda>i. case ping_run E (launch_number E lan_dev tr i) (snd (lan_dev ! i)) of
                      Inl e \<Rightarrow> False | Inr rc \<Rightarrow> True) [0..<length lan_dev]"

text \<open>The first test of \<^verbatim>\<open>main\<close>: the first argument asks for the usage.\<close>

definition is_help_request :: "string list \<Rightarrow> bool" where
  "is_help_request argv =
     (length argv > 1 \<and> argv ! 1 \<in> set [''help'', ''-help'', ''--help'', ''/help''])"

subsection \<open>Example hosts\<close>

text \<open>A host on which both programs are found.\<close>

definition which_all :: "string \<Rightarrow> string option" where
  "which_all req = Some (''/usr/bin/'' @ req)"

text \<open>A host on which \<^verbatim>\<open>ping\<close> is not found.\<close>

definition which_no_ping :: "string \<Rightarrow> string option" where
  "which_no_ping req = (if req = ''ping'' then None else Some (''/usr/sbin/'' @ req))"

text \<open>The ping process cannot be started.\<close>

definition ping_cannot_start :: "nat \<Rightarrow> string \<Rightarrow> error + int" where
  "ping_cannot_start n ip = Inl OSError"


text \<open>Only \<^verbatim>\<open>192.168.1.10\<close> answers; ping exits with 1 for every other address.\<close>

definition ping_scenario_C :: "nat \<Rightarrow> string \<Rightarrow> error + int" where
  "ping_scenario_C n ip = (if ip = ''192.168.1.10'' then Inr 0 else Inr 1)"

text \<open>Only the first ping of the run is answered, whatever its address.\<close>

definition ping_first_only :: "nat \<Rightarrow> string \<Rightarrow> error + int" where
  "ping_first_only n ip = (if n = 0 then Inr 0 else Inr 1)"

text \<open>The worker holding the first unfinished chunk always runs next: the tasks start
  in the order of the list.\<close>

definition pick_first :: "nat \<Rightarrow> nat" where
  "pick_first k = 0"

text \<open>The worker holding the second unfinished chunk runs next, when there is one.\<close>

definition pick_second :: "nat \<Rightarrow> nat" where
  "pick_second k = 1"

definition neigh_scenario_C :: string where
  "neigh_scenario_C =
     ''192.168.1.10 dev eth0 lladdr aa:bb:cc:dd:ee:ff REACHABLE'' @ [CHR 0x0A] @
     ''192.168.1.20 dev eth0 lladdr 11:22:33:44:55:66 STALE'' @ [CHR 0x0A]"

definition candidates_scenario_C :: "(string, string) dict" where
  "candidates_scenario_C =
     [(''aa:bb:cc:dd:ee:ff'', ''192.168.1.10''), (''11:22:33:44:55:66'', ''192.168.1.20'')]"

text \<open>Two candidates that share one address.\<close>

definition candidates_same_ip :: "(string, string) dict" where
  "candidates_same_ip =
     [(''aa:bb:cc:dd:ee:ff'', ''192.168.1.10''), (''11:22:33:44:55:66'', ''192.168.1.10'')]"


definition host_scenario_C :: env where
  "host_scenario_C =
     \<lparr>which = which_all, ip_neigh_show = Inr neigh_scenario_C, ping_run = ping_scenario_C,
      pool_pick = pick_first\<rparr>"

definition host_first_only :: env where
  "host_first_only =
     \<lparr>which = which_all, ip_neigh_show = Inr neigh_scenario_C, ping_run = ping_first_only,
      pool_pick = pick_first\<rparr>"

definition host_second_first :: env where
  "host_second_first =
     \<lparr>which = which_all, ip_neigh_show = Inr neigh_scenario_C, ping_run = ping_first_only,
      pool_pick = pick_second\<rparr>"

definition host_ping_cannot_start :: env where
  "host_ping_cannot_start =
     \<lparr>which = which_all, ip_neigh_show = Inr neigh_scenario_C, ping_run = ping_cannot_start,
      pool_pick = pick_first\<rparr>"


definition host_no_ping :: env where
  "host_no_ping =
     \<lparr>which = which_no_ping, ip_neigh_show = Inr neigh_scenario_C, ping_run = ping_scenario_C,
      pool_pick = pick_first\<rparr>"

text \<open>The neighbour table is empty.\<close>

definition host_no_neighbours :: env where
  "host_no_neighbours =
     \<lparr>which = which_all, ip_neigh_show = Inr [], ping_run = ping_scenario_C,
      pool_pick = pick_first\<rparr>"

text \<open>The neighbour table has one line, with no resolved address.\<close>

definition host_unresolved :: env where
  "host_unresolved =
     \<lparr>which = which_all,
      ip_neigh_show = Inr (''192.168.1.11 dev eth0 FAILED'' @ [CHR 0x0A]),
      ping_run = ping_scenario_C, pool_pick = pick_first\<rparr>"

section \<open>Properties\<close>

subsection \<open>The pattern matcher\<close>

lemma hex2_Some: "hex2 s = Some r \<longleftrightarrow> (\<exists>a b. s = a # b # r \<and> is_hex a \<and> is_hex b)"
  by (cases s rule: hex2.cases) auto

lemma hex2_sep_Some:
  "hex2_sep s = Some r \<longleftrightarrow> (\<exists>a b c. s = a # b # c # r \<and> is_hex a \<and> is_hex b \<and> is_sep c)"
  by (auto simp: hex2_sep_def hex2_Some split: option.splits list.splits)


lemma hex2_sep_Cons3 [simp]:
  "hex2_sep (a # b # c # r) = (if is_hex a \<and> is_hex b \<and> is_sep c then Some r else None)"
  by (simp add: hex2_sep_def)

lemma grp_ok_Nil: "grp_ok []"
  by (simp add: grp_ok_def)

lemma all_less_Suc3:
  "(\<forall>i<Suc (Suc (Suc n)). P i) \<longleftrightarrow> P 0 \<and> P (Suc 0) \<and> P (Suc (Suc 0)) \<and> (\<forall>i<n. P (Suc (Suc (Suc i))))"
  by (simp add: All_less_Suc2)

lemma mod3_Suc3: "Suc (Suc (Suc i)) mod 3 = i mod 3"
proof -
  have "Suc (Suc (Suc i)) = i + 3" by simp
  then show ?thesis by (simp only: mod_add_self2)
qed

lemma grp_ok_Cons3:
  "grp_ok (a # b # c # g) \<longleftrightarrow> is_hex a \<and> is_hex b \<and> is_sep c \<and> grp_ok g"
  unfolding grp_ok_def by (simp add: all_less_Suc3 mod3_Suc3 del: mod_Suc_eq_mod_add3)

lemma groups_Some:
  "groups n s = Some r \<longleftrightarrow> (\<exists>g. s = g @ r \<and> length g = 3 * n \<and> grp_ok g)"
proof (induction n arbitrary: s)
  case 0
  then show ?case by (auto simp: grp_ok_Nil)
next
  case (Suc n)
  show ?case
  proof
    assume "groups (Suc n) s = Some r"
    then obtain a b c s' where s: "s = a # b # c # s'" and abc: "is_hex a" "is_hex b" "is_sep c"
      and g: "groups n s' = Some r"
      by (auto simp: hex2_sep_Some split: option.splits)
    from g Suc.IH obtain g' where "s' = g' @ r" "length g' = 3 * n" "grp_ok g'" by blast
    with s abc have "s = (a # b # c # g') @ r \<and> length (a # b # c # g') = 3 * Suc n \<and> grp_ok (a # b # c # g')"
      by (simp add: grp_ok_Cons3)
    then show "\<exists>g. s = g @ r \<and> length g = 3 * Suc n \<and> grp_ok g" by blast
  next
    assume "\<exists>g. s = g @ r \<and> length g = 3 * Suc n \<and> grp_ok g"
    then obtain g where g: "s = g @ r" "length g = 3 * Suc n" "grp_ok g" by blast
    then obtain a b c g' where g': "g = a # b # c # g'"
      by (cases g rule: hex2.cases) (auto simp: length_Suc_conv)
    with g have "is_hex a" "is_hex b" "is_sep c" "grp_ok g'" "length g' = 3 * n"
      by (simp_all add: grp_ok_Cons3)
    with Suc.IH [of "g' @ r"] have "groups n (g' @ r) = Some r" by blast
    with g g' \<open>is_hex a\<close> \<open>is_hex b\<close> \<open>is_sep c\<close> show "groups (Suc n) s = Some r"
      by (simp add: hex2_sep_Some)
  qed
qed

lemma is_mac_grp_ok: "is_mac m \<longleftrightarrow> length m = 17 \<and> grp_ok m"
  by (auto simp: is_mac_def grp_ok_def list_all_iff)

lemma all_less_17: "(\<forall>i<(17::nat). P i) \<longleftrightarrow> (\<forall>i<15. P i) \<and> P 15 \<and> P 16"
proof -
  have "\<And>i::nat. i < 17 \<longleftrightarrow> i < 15 \<or> i = 15 \<or> i = 16" by arith
  then show ?thesis by auto
qed

lemma grp_ok_snoc2:
  assumes "length g = 15"
  shows "grp_ok (g @ [a, b]) \<longleftrightarrow> grp_ok g \<and> is_hex a \<and> is_hex b"
  using assms by (auto simp: grp_ok_def all_less_17 nth_append)

lemma length2_obtain: "length xs = 2 \<Longrightarrow> \<exists>a b. xs = [a, b]"
  by (auto simp: length_Suc_conv numeral_2_eq_2)

lemma mac_match_at_Some: "mac_match_at s = Some m \<longleftrightarrow> is_mac m \<and> prefix m s"
proof
  assume "mac_match_at s = Some m"
  then obtain r a b r' where r: "groups 5 s = Some r" "r = a # b # r'" "is_hex a" "is_hex b"
    and m: "m = take (length s - length r') s"
    by (auto simp: mac_match_at_def hex2_Some split: option.splits)
  from r(1) obtain g where g: "s = g @ r" "length g = 15" "grp_ok g"
    by (auto simp: groups_Some)
  with r m have "m = g @ [a, b]" by simp
  with g r show "is_mac m \<and> prefix m s"
    by (simp add: is_mac_grp_ok grp_ok_snoc2 prefix_def)
next
  assume a: "is_mac m \<and> prefix m s"
  then obtain r' where s: "s = m @ r'" by (auto simp: prefix_def)
  from a have len: "length m = 17" and ok: "grp_ok m" by (simp_all add: is_mac_grp_ok)
  define g where "g = take 15 m"
  from len have "length (drop 15 m) = 2" by simp
  then obtain a b where "drop 15 m = [a, b]"
    using length2_obtain by blast
  with append_take_drop_id [of 15 m] have m: "m = g @ [a, b]"
    by (simp add: g_def)
  from len m have lg: "length g = 15" by simp
  with ok m have "grp_ok g" "is_hex a" "is_hex b" by (simp_all add: grp_ok_snoc2)
  with lg have "groups 5 (g @ a # b # r') = Some (a # b # r')" by (simp add: groups_Some)
  with s m \<open>is_hex a\<close> \<open>is_hex b\<close> show "mac_match_at s = Some m"
    by (simp add: mac_match_at_def)
qed

lemma mac_search_unfold:
  "mac_search s = (case mac_match_at s of Some m \<Rightarrow> Some m
                   | None \<Rightarrow> (case s of [] \<Rightarrow> None | c # cs \<Rightarrow> mac_search cs))"
  by (cases s) (auto split: option.splits)

lemma not_is_mac_Nil: "\<not> is_mac []"
  by (simp add: is_mac_def)

lemma mac_match_at_Nil: "mac_match_at [] = None"
proof (cases "mac_match_at []")
  case None
  then show ?thesis .
next
  case (Some m)
  with mac_match_at_Some [of "[]" m] have "is_mac m" and "prefix m []" by blast+
  then have "is_mac []" by simp
  with not_is_mac_Nil show ?thesis by blast
qed

lemma mac_search_Some_is_mac: "mac_search l = Some m \<Longrightarrow> is_mac m \<and> sublist m l"
proof (induction l)
  case Nil
  then show ?case by (simp add: mac_match_at_Nil)
next
  case (Cons c cs)
  then show ?case
    by (auto simp: mac_match_at_Some sublist_Cons_right split: option.splits)
qed

lemma mac_search_None_iff: "mac_search l = None \<longleftrightarrow> \<not> contains_mac l"
proof (induction l)
  case Nil
  show ?case
    using not_is_mac_Nil by (auto simp: contains_mac_def mac_match_at_Nil)
next
  case (Cons c cs)
  have "mac_match_at (c # cs) = None \<longleftrightarrow> \<not> (\<exists>m. is_mac m \<and> prefix m (c # cs))"
    using mac_match_at_Some [of "c # cs"] by (cases "mac_match_at (c # cs)") auto
  with Cons show ?case
    by (auto simp: contains_mac_def sublist_Cons_right split: option.splits)
qed

subsection \<open>Whitespace and tokens\<close>

lemma hex_not_space: "list_all (\<lambda>c. \<not> is_space c) ''0123456789ABCDEFabcdef''"
  by (simp add: is_space_def)

lemma is_hex_not_space: "is_hex c \<Longrightarrow> \<not> is_space c"
  using hex_not_space unfolding is_hex_def list_all_iff by blast

lemma split_ws_Nil_iff: "split_ws l = [] \<longleftrightarrow> (\<forall>c\<in>set l. is_space c)"
  by (induction l rule: split_ws.induct) simp_all

lemma split_ws_tokens:
  "t \<in> set (split_ws l) \<Longrightarrow> t \<noteq> [] \<and> (\<forall>x\<in>set t. \<not> is_space x) \<and> sublist t l"
proof (induction l rule: split_ws.induct)
  case 1
  then show ?case by simp
next
  case (2 c cs)
  note prem = \<open>t \<in> set (split_ws (c # cs))\<close>
  show ?case
  proof (cases "is_space c")
    case True
    with prem have "t \<in> set (split_ws cs)" by simp
    with 2(1) [OF True] have "t \<noteq> [] \<and> (\<forall>x\<in>set t. \<not> is_space x) \<and> sublist t cs" .
    then show ?thesis by (simp add: sublist_Cons_right)
  next
    case False
    let ?tok = "c # takeWhile (\<lambda>x. \<not> is_space x) cs"
    let ?rest = "dropWhile (\<lambda>x. \<not> is_space x) cs"
    from prem False have "t = ?tok \<or> t \<in> set (split_ws ?rest)" by simp
    then show ?thesis
    proof
      assume t: "t = ?tok"
      have "prefix ?tok (c # cs)" by (simp add: takeWhile_is_prefix)
      then have "sublist ?tok (c # cs)" by (simp only: sublist_Cons_right) simp
      moreover have "\<forall>x\<in>set ?tok. \<not> is_space x"
        using False by (auto dest: set_takeWhileD)
      ultimately show ?thesis using t by simp
    next
      assume "t \<in> set (split_ws ?rest)"
      with 2(2) [OF False] have ih: "t \<noteq> [] \<and> (\<forall>x\<in>set t. \<not> is_space x) \<and> sublist t ?rest" .
      have "suffix ?rest cs" by (rule suffix_dropWhile)
      then have "sublist ?rest cs" by (rule suffix_imp_sublist)
      then have "sublist ?rest (c # cs)" by (simp add: sublist_Cons_right)
      with ih have "sublist t (c # cs)" using sublist_order.order_trans by blast
      with ih show ?thesis by simp
    qed
  qed
qed

subsection \<open>The first token of a matched line\<close>

lemma is_mac_hd_hex:
  assumes "is_mac m"
  shows "is_hex (hd m) \<and> hd m \<in> set m"
proof -
  from assms have len: "length m = 17" and ok: "grp_ok m" by (simp_all add: is_mac_grp_ok)
  from len have ne: "m \<noteq> []" by auto
  from ok len have "is_hex (m ! 0)" by (simp add: grp_ok_def)
  with ne show ?thesis by (simp add: hd_conv_nth)
qed

lemma mac_search_nonspace:
  assumes "mac_search line = Some mac"
  shows "\<exists>c\<in>set line. \<not> is_space c"
proof -
  from assms have "is_mac mac" and sub: "sublist mac line" by (simp_all add: mac_search_Some_is_mac)
  then have "is_hex (hd mac)" and "hd mac \<in> set mac" by (simp_all add: is_mac_hd_hex)
  moreover from sub have "set mac \<subseteq> set line" by (rule set_mono_sublist)
  ultimately show ?thesis using is_hex_not_space by blast
qed

lemma mac_search_split_ws:
  assumes "mac_search line = Some mac"
  shows "\<exists>ip rest. split_ws line = ip # rest"
proof -
  from assms have "split_ws line \<noteq> []"
    using mac_search_nonspace split_ws_Nil_iff by blast
  then show ?thesis by (cases "split_ws line") auto
qed

lemma parse_loop_total: "\<exists>d. parse_loop lines lan_dev = Inr d"
proof (induction lines arbitrary: lan_dev)
  case Nil
  show ?case by simp
next
  case (Cons line lines)
  show ?case
  proof (cases "mac_search line")
    case None
    with Cons show ?thesis by simp
  next
    case (Some mac)
    then obtain ip rest where "split_ws line = ip # rest"
      using mac_search_split_ws by blast
    with Some Cons show ?thesis by simp
  qed
qed

subsection \<open>Dictionaries and traces\<close>

lemma keys_dict_set:
  "keys (dict_set k v d) = (if k \<in> set (keys d) then keys d else keys d @ [k])"
  by (induction d) (force simp: keys_def)+

lemma set_keys_dict_set: "set (keys (dict_set k v d)) = insert k (set (keys d))"
  by (auto simp: keys_dict_set)

lemma distinct_dict_set: "distinct (keys d) \<Longrightarrow> distinct (keys (dict_set k v d))"
  by (simp add: keys_dict_set)

lemma map_of_dict_set: "map_of (dict_set k v d) = (map_of d)(k \<mapsto> v)"
  by (induction d) (auto simp: fun_eq_iff)

lemma set_dict_set: "p \<in> set (dict_set k v d) \<Longrightarrow> p = (k, v) \<or> p \<in> set d"
  by (induction d) (auto split: if_splits)

lemma dict_pop_subseq: "dict_pop k d = Inr d' \<Longrightarrow> subseq d' d"
proof (induction d arbitrary: d')
  case Nil
  then show ?case by simp
next
  case (Cons p d)
  obtain k' v' where p: "p = (k', v')" by (cases p)
  show ?case
  proof (cases "k' = k")
    case True
    with Cons.prems p have "d' = d" by simp
    then show ?thesis by (simp add: list_emb_Cons)
  next
    case False
    with Cons.prems p obtain d'' where "dict_pop k d = Inr d''" and "d' = p # d''"
      by (auto split: sum.splits)
    with Cons.IH show ?thesis by simp
  qed
qed

lemma dict_pop_append:
  "k \<notin> set (keys A) \<Longrightarrow> dict_pop k (A @ (k, v) # B) = Inr (A @ B)"
  by (induction A) (auto simp: keys_def)

lemma pinged_append: "pinged (tr @ tr') = pinged tr @ pinged tr'"
  by (induction tr rule: pinged.induct) simp_all


subsection \<open>The parse loop\<close>

lemma parse_loop_step:
  assumes "mac_search line = Some mac"
  shows "\<exists>ip rest. split_ws line = ip # rest \<and>
           parse_loop (line # lines) d = parse_loop lines (dict_set mac ip d)"
proof -
  from assms obtain ip rest where "split_ws line = ip # rest"
    using mac_search_split_ws by blast
  with assms show ?thesis by simp
qed

lemma parse_loop_distinct:
  "parse_loop lines d0 = Inr d \<Longrightarrow> distinct (keys d0) \<Longrightarrow> distinct (keys d)"
proof (induction lines arbitrary: d0)
  case Nil
  then show ?case by simp
next
  case (Cons line lines)
  show ?case
  proof (cases "mac_search line")
    case None
    with Cons show ?thesis by simp
  next
    case (Some mac)
    then obtain ip rest where "split_ws line = ip # rest"
      and "parse_loop (line # lines) d0 = parse_loop lines (dict_set mac ip d0)"
      using parse_loop_step by blast
    with Cons.prems Cons.IH [of "dict_set mac ip d0"] show ?thesis
      by (simp add: distinct_dict_set)
  qed
qed

lemma parse_loop_map_of:
  "parse_loop lines d0 = Inr d \<Longrightarrow>
   map_of d mac =
     (case filter (\<lambda>l. mac_search l = Some mac) lines of
        [] \<Rightarrow> map_of d0 mac
      | l # ls \<Rightarrow> (case split_ws (last (l # ls)) of [] \<Rightarrow> None | ip # _ \<Rightarrow> Some ip))"
proof (induction lines arbitrary: d0)
  case Nil
  then show ?case by simp
next
  case (Cons line lines)
  show ?case
  proof (cases "mac_search line")
    case None
    with Cons show ?thesis by simp
  next
    case (Some mac')
    then obtain ip rest where sp: "split_ws line = ip # rest"
      and st: "parse_loop (line # lines) d0 = parse_loop lines (dict_set mac' ip d0)"
      using parse_loop_step by blast
    from st Cons.prems have "parse_loop lines (dict_set mac' ip d0) = Inr d" by simp
    from Cons.IH [OF this] have ih: "map_of d mac =
     (case filter (\<lambda>l. mac_search l = Some mac) lines of
        [] \<Rightarrow> map_of (dict_set mac' ip d0) mac
      | l # ls \<Rightarrow> (case split_ws (last (l # ls)) of [] \<Rightarrow> None | ip # _ \<Rightarrow> Some ip))" .
    show ?thesis
    proof (cases "mac' = mac")
      case True
      with Some sp ih show ?thesis
        by (cases "filter (\<lambda>l. mac_search l = Some mac) lines") (simp_all add: map_of_dict_set)
    next
      case False
      with Some ih show ?thesis
        by (cases "filter (\<lambda>l. mac_search l = Some mac) lines") (simp_all add: map_of_dict_set)
    qed
  qed
qed

lemma parse_loop_entries:
  assumes "parse_loop lines d0 = Inr d" and "p \<in> set d"
  shows "p \<in> set d0 \<or> (\<exists>line ip rest. line \<in> set lines \<and> mac_search line = Some (fst p)
            \<and> split_ws line = ip # rest \<and> snd p = ip)"
  using assms
proof (induction lines arbitrary: d0)
  case Nil
  then show ?case by simp
next
  case (Cons line lines)
  show ?case
  proof (cases "mac_search line")
    case None
    with Cons.prems have "parse_loop lines d0 = Inr d" by simp
    from Cons.IH [OF this Cons.prems(2)] show ?thesis by auto
  next
    case (Some mac)
    then obtain ip rest where sp: "split_ws line = ip # rest"
      and st: "parse_loop (line # lines) d0 = parse_loop lines (dict_set mac ip d0)"
      using parse_loop_step by blast
    from st Cons.prems have "parse_loop lines (dict_set mac ip d0) = Inr d" by simp
    from Cons.IH [OF this Cons.prems(2)]
    have "p \<in> set (dict_set mac ip d0) \<or> (\<exists>line ip rest. line \<in> set lines \<and>
            mac_search line = Some (fst p) \<and> split_ws line = ip # rest \<and> snd p = ip)" .
    then show ?thesis
    proof
      assume "p \<in> set (dict_set mac ip d0)"
      then have "p = (mac, ip) \<or> p \<in> set d0" by (rule set_dict_set)
      with Some sp show ?thesis by auto
    next
      assume "\<exists>line ip rest. line \<in> set lines \<and>
            mac_search line = Some (fst p) \<and> split_ws line = ip # rest \<and> snd p = ip"
      then show ?thesis by auto
    qed
  qed
qed

lemma parse_loop_skip:
  "mac_search line = None \<Longrightarrow> parse_loop (line # lines) d = parse_loop lines d"
  by simp

lemma parse_loop_filter:
  "parse_loop lines d = parse_loop (filter (\<lambda>l. mac_search l \<noteq> None) lines) d"
proof (induction lines arbitrary: d)
  case Nil
  show ?case by simp
next
  case (Cons line lines)
  show ?case
  proof (cases "mac_search line")
    case None
    with Cons show ?thesis by simp
  next
    case (Some mac)
    then obtain ip rest where sp: "split_ws line = ip # rest"
      using mac_search_split_ws by blast
    with Some Cons [of "dict_set mac ip d"] show ?thesis by simp
  qed
qed

subsection \<open>The pool and the removal loop\<close>


lemma is_ip_reachable_Inr:
  "fst (is_ip_reachable E ip tr) = Inr b \<longleftrightarrow>
     (\<exists>rc. ping_run E (length (pinged tr)) ip = Inr rc \<and> b = (rc = 0))"
  by (auto simp: is_ip_reachable_def split: sum.splits)

lemma chunksize_for_pos: "0 < n \<Longrightarrow> 0 < chunksize_for n"
proof -
  assume n: "0 < n"
  show ?thesis
  proof (cases "n mod (MULTIPROC_PCOUNT * 4) = 0")
    case True
    with n have "0 < n div (MULTIPROC_PCOUNT * 4)"
      unfolding MULTIPROC_PCOUNT_def by arith
    with True n show ?thesis by (simp add: chunksize_for_def)
  next
    case False
    with n show ?thesis by (simp add: chunksize_for_def)
  qed
qed

lemma concat_get_tasks: "0 < chunksize \<Longrightarrow> concat (get_tasks chunksize xs) = xs"
proof (induction chunksize xs rule: get_tasks.induct)
  case (1 chunksize xs)
  show ?case
  proof (cases "xs = []")
    case True
    then show ?thesis by (subst get_tasks.simps) simp
  next
    case False
    with 1 have "concat (get_tasks chunksize (drop chunksize xs)) = drop chunksize xs" by simp
    with False 1(2) show ?thesis by (subst get_tasks.simps) simp
  qed
qed

lemma mset_concat_update:
  assumes "j < length cs" and "cs ! j = x # rest"
  shows "mset (concat cs) = add_mset x (mset (concat (cs[j := rest])))"
proof -
  from assms have "cs = take j cs @ (x # rest) # drop (Suc j) cs"
    by (metis id_take_nth_drop)
  then have "mset (concat cs) = mset (concat (take j cs @ (x # rest) # drop (Suc j) cs))"
    by simp
  moreover from assms(1) have "cs[j := rest] = take j cs @ rest # drop (Suc j) cs"
    by (rule upd_conv_take_nth_drop)
  ultimately show ?thesis by simp
qed

lemma concat_filter_nonempty: "concat (filter (\<lambda>c. c \<noteq> []) cs) = concat cs"
  by (induction cs) auto

lemma mset_schedule: "mset (schedule pick k chunks) = mset (concat chunks)"
proof (induction pick k chunks rule: schedule.induct)
  case (1 pick k chunks)
  let ?u = "filter (\<lambda>c. c \<noteq> []) chunks"
  let ?j = "pick k mod min MULTIPROC_PCOUNT (length ?u)"
  show ?case
  proof (cases "?u = []")
    case True
    then have "concat ?u = []" by simp
    then have "concat chunks = []" by (simp only: concat_filter_nonempty)
    with True show ?thesis by (subst schedule.simps) simp
  next
    case False
    then have "0 < min MULTIPROC_PCOUNT (length ?u)" by (simp add: MULTIPROC_PCOUNT_def)
    then have "?j < min MULTIPROC_PCOUNT (length ?u)" by (rule mod_less_divisor)
    then have j: "?j < length ?u" by simp
    then have "?u ! ?j \<in> set ?u" by (rule nth_mem)
    then have "?u ! ?j \<noteq> []" by simp
    then obtain x rest where xr: "?u ! ?j = x # rest" by (cases "?u ! ?j") auto
    from "1.IH" [OF refl False refl xr]
    have ih: "mset (schedule pick (Suc k) (?u[?j := rest])) = mset (concat (?u[?j := rest]))" .
    have "schedule pick k chunks = x # schedule pick (Suc k) (?u[?j := rest])"
      using False xr by (subst schedule.simps) (simp add: Let_def)
    then have "mset (schedule pick k chunks) = add_mset x (mset (concat (?u[?j := rest])))"
      using ih by simp
    also have "\<dots> = mset (concat ?u)" using mset_concat_update [OF j xr] by simp
    also have "\<dots> = mset (concat chunks)" by (simp only: concat_filter_nonempty)
    finally show ?thesis .
  qed
qed

lemma mset_start_order: "mset (start_order pick xs) = mset (zip [0..<length xs] xs)"
proof (cases "xs = []")
  case True
  have "get_tasks (chunksize_for (length xs)) (zip [0..<length xs] xs) = []"
    using True by (subst get_tasks.simps) simp
  with True show ?thesis by (simp add: start_order_def mset_schedule)
next
  case False
  then have "0 < chunksize_for (length xs)" by (simp add: chunksize_for_pos)
  then show ?thesis by (simp add: start_order_def mset_schedule concat_get_tasks)
qed

lemma set_start_order: "set (start_order pick xs) = set (zip [0..<length xs] xs)"
  using mset_start_order [of pick xs] by (rule mset_eq_setD)

lemma length_start_order: "length (start_order pick xs) = length xs"
  using mset_start_order [of pick xs, THEN mset_eq_length] by simp

lemma start_order_item: "(i, x) \<in> set (start_order pick xs) \<Longrightarrow> i < length xs \<and> x = xs ! i"
  by (auto simp: set_start_order set_zip)

lemma mset_fst_start_order: "mset (map fst (start_order pick xs)) = mset [0..<length xs]"
proof -
  have "mset (map fst (start_order pick xs)) = image_mset fst (mset (start_order pick xs))"
    by (rule mset_map)
  also have "\<dots> = image_mset fst (mset (zip [0..<length xs] xs))"
    by (simp only: mset_start_order)
  also have "\<dots> = mset (map fst (zip [0..<length xs] xs))"
    by (rule mset_map [symmetric])
  also have "map fst (zip [0..<length xs] xs) = [0..<length xs]" by simp
  finally show ?thesis .
qed

lemma distinct_fst_start_order: "distinct (map fst (start_order pick xs))"
  using mset_fst_start_order [of pick xs, THEN mset_eq_imp_distinct_iff] by simp

lemma set_fst_start_order: "set (map fst (start_order pick xs)) = {0..<length xs}"
  using mset_fst_start_order [of pick xs, THEN mset_eq_setD] by simp

lemma position_less: "x \<in> set ys \<Longrightarrow> position x ys < length ys"
  by (induction ys) auto

lemma nth_position: "x \<in> set ys \<Longrightarrow> ys ! position x ys = x"
  by (induction ys) auto

lemma position_nth: "distinct ys \<Longrightarrow> p < length ys \<Longrightarrow> position (ys ! p) ys = p"
proof (induction ys arbitrary: p)
  case Nil
  then show ?case by simp
next
  case (Cons y ys)
  then show ?case by (cases p) auto
qed

lemma filled_map_Some: "filled (map (\<lambda>i. Some (g i)) is) = map g is"
  by (induction "is") simp_all

lemma run_tasks_complete:
  assumes "distinct (map fst order)"
    and "\<forall>p<length order. \<exists>rc. ping_run E (length (pinged tr) + p) (snd (order ! p)) = Inr rc"
  shows "\<exists>res'. run_tasks (is_ip_reachable E) chunksize order [] None res tr =
                  (None, res', tr @ map Run_ping (map snd order)) \<and>
               length res' = length res \<and>
               (\<forall>p<length order. fst (order ! p) < length res \<longrightarrow>
                  res' ! fst (order ! p) =
                    Some (ping_run E (length (pinged tr) + p) (snd (order ! p)) = Inr 0)) \<and>
               (\<forall>i. i \<notin> fst ` set order \<longrightarrow> res' ! i = res ! i)"
  using assms
proof (induction order arbitrary: tr res)
  case Nil
  show ?case by simp
next
  case (Cons task order)
  obtain i x where task: "task = (i, x)" by (cases task)
  let ?tr1 = "tr @ [Run_ping x]"
  from Cons.prems(2) have "\<exists>rc. ping_run E (length (pinged tr) + 0) (snd ((task # order) ! 0)) = Inr rc"
    by blast
  with task obtain rc where rc: "ping_run E (length (pinged tr)) x = Inr rc" by auto
  then have call: "is_ip_reachable E x tr = (Inr (rc = 0), ?tr1)"
    by (simp add: is_ip_reachable_def)
  let ?res1 = "res[i := Some (rc = 0)]"
  have step: "run_tasks (is_ip_reachable E) chunksize (task # order) [] None res tr =
              run_tasks (is_ip_reachable E) chunksize order [] None ?res1 ?tr1"
    using task call by simp
  from Cons.prems(1) task have d: "distinct (map fst order)" and ni: "i \<notin> fst ` set order"
    by auto
  have c: "\<forall>p<length order. \<exists>rc. ping_run E (length (pinged ?tr1) + p) (snd (order ! p)) = Inr rc"
  proof (intro allI impI)
    fix p assume "p < length order"
    then have "Suc p < length (task # order)" by simp
    with Cons.prems(2) have "\<exists>rc. ping_run E (length (pinged tr) + Suc p) (snd ((task # order) ! Suc p)) = Inr rc"
      by blast
    then show "\<exists>rc. ping_run E (length (pinged ?tr1) + p) (snd (order ! p)) = Inr rc"
      by (simp add: pinged_append)
  qed
  from Cons.IH [OF d c, of ?res1] obtain res' where
    run: "run_tasks (is_ip_reachable E) chunksize order [] None ?res1 ?tr1 =
            (None, res', ?tr1 @ map Run_ping (map snd order))"
    and len: "length res' = length ?res1"
    and some: "\<forall>p<length order. fst (order ! p) < length ?res1 \<longrightarrow>
                  res' ! fst (order ! p) =
                    Some (ping_run E (length (pinged ?tr1) + p) (snd (order ! p)) = Inr 0)"
    and same: "\<forall>i. i \<notin> fst ` set order \<longrightarrow> res' ! i = ?res1 ! i" by blast
  have 1: "run_tasks (is_ip_reachable E) chunksize (task # order) [] None res tr =
             (None, res', tr @ map Run_ping (map snd (task # order)))"
    using step run task by simp
  have 2: "length res' = length res" using len by simp
  have 3: "\<forall>p<length (task # order). fst ((task # order) ! p) < length res \<longrightarrow>
             res' ! fst ((task # order) ! p) =
               Some (ping_run E (length (pinged tr) + p) (snd ((task # order) ! p)) = Inr 0)"
  proof (intro allI impI)
    fix p assume p: "p < length (task # order)" and l: "fst ((task # order) ! p) < length res"
    show "res' ! fst ((task # order) ! p) =
               Some (ping_run E (length (pinged tr) + p) (snd ((task # order) ! p)) = Inr 0)"
    proof (cases p)
      case 0
      with l task have "i < length res" by simp
      with same ni have "res' ! i = Some (rc = 0)" by simp
      with 0 task rc show ?thesis by simp
    next
      case (Suc q)
      with p l have "q < length order" and "fst (order ! q) < length ?res1" by simp_all
      with some have "res' ! fst (order ! q) =
                    Some (ping_run E (length (pinged ?tr1) + q) (snd (order ! q)) = Inr 0)" by blast
      with Suc show ?thesis by (simp add: pinged_append)
    qed
  qed
  have 4: "\<forall>k. k \<notin> fst ` set (task # order) \<longrightarrow> res' ! k = res ! k"
  proof (intro allI impI)
    fix k assume "k \<notin> fst ` set (task # order)"
    with task have "k \<noteq> i" and "k \<notin> fst ` set order" by auto
    with same show "res' ! k = res ! k" by simp
  qed
  from 1 2 3 4 show ?case by blast
qed


lemma pool_map_complete:
  assumes "\<forall>i<length xs. \<exists>rc.
             ping_run E (length (pinged tr) + position i (map fst (start_order pick xs))) (xs ! i) = Inr rc"
  shows "pool_map pick (is_ip_reachable E) xs tr =
           (Inr (map (\<lambda>i. ping_run E (length (pinged tr) + position i (map fst (start_order pick xs)))
                             (xs ! i) = Inr 0) [0..<length xs]),
            tr @ map Run_ping (map snd (start_order pick xs)))"
proof -
  let ?order = "start_order pick xs"
  let ?n = "length xs"
  let ?g = "\<lambda>i. ping_run E (length (pinged tr) + position i (map fst ?order)) (xs ! i) = Inr 0"
  have d: "distinct (map fst ?order)" by (rule distinct_fst_start_order)
  have at: "fst (?order ! p) < ?n \<and> snd (?order ! p) = xs ! fst (?order ! p) \<and>
            position (fst (?order ! p)) (map fst ?order) = p" if "p < length ?order" for p
  proof -
    from that have "?order ! p \<in> set ?order" by (rule nth_mem)
    then have "(fst (?order ! p), snd (?order ! p)) \<in> set ?order" by simp
    then have "fst (?order ! p) < ?n \<and> snd (?order ! p) = xs ! fst (?order ! p)"
      by (rule start_order_item)
    moreover from d that have "position (map fst ?order ! p) (map fst ?order) = p"
      by (intro position_nth) simp_all
    ultimately show ?thesis using that by simp
  qed
  have c: "\<forall>p<length ?order. \<exists>rc. ping_run E (length (pinged tr) + p) (snd (?order ! p)) = Inr rc"
  proof (intro allI impI)
    fix p assume p: "p < length ?order"
    from at [OF p] assms
    have "\<exists>rc. ping_run E (length (pinged tr) + position (fst (?order ! p)) (map fst ?order))
                 (xs ! fst (?order ! p)) = Inr rc" by blast
    with at [OF p] show "\<exists>rc. ping_run E (length (pinged tr) + p) (snd (?order ! p)) = Inr rc"
      by simp
  qed
  from run_tasks_complete [OF d c, of "chunksize_for ?n" "replicate ?n None"] obtain res' where
    run: "run_tasks (is_ip_reachable E) (chunksize_for ?n) ?order [] None (replicate ?n None) tr =
            (None, res', tr @ map Run_ping (map snd ?order))"
    and len: "length res' = ?n"
    and some: "\<forall>p<length ?order. fst (?order ! p) < ?n \<longrightarrow>
                  res' ! fst (?order ! p) =
                    Some (ping_run E (length (pinged tr) + p) (snd (?order ! p)) = Inr 0)"
    by auto
  have "res' = map (\<lambda>i. Some (?g i)) [0..<?n]"
  proof (rule nth_equalityI)
    show "length res' = length (map (\<lambda>i. Some (?g i)) [0..<?n])" using len by simp
  next
    fix i assume "i < length res'"
    with len have i: "i < ?n" by simp
    then have "i \<in> set (map fst ?order)" by (simp only: set_fst_start_order) simp
    then have pl: "position i (map fst ?order) < length ?order"
      and pn: "map fst ?order ! position i (map fst ?order) = i"
      using position_less [of i "map fst ?order"] nth_position [of i "map fst ?order"] by simp_all
    let ?p = "position i (map fst ?order)"
    from pl pn have fi: "fst (?order ! ?p) = i" by simp
    with at [OF pl] have sx: "snd (?order ! ?p) = xs ! i" by simp
    from some pl fi i have "res' ! i = Some (ping_run E (length (pinged tr) + ?p) (snd (?order ! ?p)) = Inr 0)"
      by metis
    with sx i show "res' ! i = map (\<lambda>i. Some (?g i)) [0..<?n] ! i" by simp
  qed
  then have "filled res' = map ?g [0..<?n]" by (simp only: filled_map_Some)
  with run show ?thesis by (simp add: pool_map_def)
qed


lemma get_tasks_Nil: "get_tasks chunksize [] = []"
  by (subst get_tasks.simps) simp

lemma schedule_Nil: "schedule pick k [] = []"
  by (subst schedule.simps) simp

lemma start_order_Nil: "start_order pick [] = []"
  by (simp add: start_order_def get_tasks_Nil schedule_Nil)

lemma pool_map_Nil: "pool_map pick f [] tr = (Inr [], tr)"
  by (simp add: pool_map_def start_order_Nil)

lemma pop_unreachable_subseq:
  "pop_unreachable all_macs result i d = Inr d' \<Longrightarrow> subseq d' d"
proof (induction all_macs result i d rule: pop_unreachable.induct)
  case (1 all_macs result i lan_dev)
  show ?case
  proof (cases "i < length result")
    case False
    with "1.prems" show ?thesis by (simp add: pop_unreachable.simps)
  next
    case True
    show ?thesis
    proof (cases "result ! i")
      case r: True
      with True "1.prems" have "pop_unreachable all_macs result (Suc i) lan_dev = Inr d'"
        by (simp add: pop_unreachable.simps [of all_macs result i])
      with "1.IH"(2) True r show ?thesis by simp
    next
      case r: False
      with True "1.prems" obtain d1 where il: "i < length all_macs"
        and p: "dict_pop (all_macs ! i) lan_dev = Inr d1"
        and rec: "pop_unreachable all_macs result (Suc i) d1 = Inr d'"
        by (auto simp: pop_unreachable.simps [of all_macs result i] split: if_splits sum.splits)
      from "1.IH"(1) [OF True _ il p rec] r have "subseq d' d1" by simp
      moreover from p have "subseq d1 lan_dev" by (rule dict_pop_subseq)
      ultimately show ?thesis using subseq_order.order_trans by blast
    qed
  qed
qed

subsection \<open>The removal loop keeps exactly the reachable entries\<close>

lemma distinct_key_not_before:
  assumes "distinct (keys d)" and "i < length d"
  shows "fst (d ! i) \<notin> set (keys (take i d))"
proof -
  from assms(2) have "d = take i d @ d ! i # drop (Suc i) d" by (rule id_take_nth_drop)
  then have "keys d = keys (take i d) @ fst (d ! i) # keys (drop (Suc i) d)"
    by (metis keys_def list.simps(9) map_append)
  with assms(1) show ?thesis by (metis distinct_append disjoint_iff list.set_intros(1))
qed

lemma pop_unreachable_exact_aux:
  assumes dist: "distinct (keys d)" and len: "length result = length d"
  shows "i \<le> length d \<Longrightarrow> set (keys A) \<subseteq> set (keys (take i d)) \<Longrightarrow>
         pop_unreachable (keys d) result i (A @ drop i d) =
           Inr (A @ map fst (filter snd (zip (drop i d) (drop i result))))"
proof (induction "length d - i" arbitrary: i A)
  case 0
  then have "i = length d" by simp
  with len show ?case by (simp add: pop_unreachable.simps)
next
  case (Suc n)
  then have i: "i < length d" by simp
  obtain k v where kv: "d ! i = (k, v)" by (cases "d ! i")
  from i have dd: "drop i d = d ! i # drop (Suc i) d" by (simp add: Cons_nth_drop_Suc)
  from i len have dr: "drop i result = result ! i # drop (Suc i) result"
    by (simp add: Cons_nth_drop_Suc)
  from i kv have ki: "keys d ! i = k" by (simp add: keys_def)
  from i have tk: "keys (take (Suc i) d) = keys (take i d) @ [fst (d ! i)]"
    by (simp add: keys_def take_Suc_conv_app_nth)
  have lk: "length (keys d) = length d" by (simp add: keys_def)
  from Suc.hyps(2) have n: "n = length d - Suc i" by simp
  from i have le: "Suc i \<le> length d" by simp
  show ?case
  proof (cases "result ! i")
    case True
    have sub: "set (keys (A @ [(k, v)])) \<subseteq> set (keys (take (Suc i) d))"
      using Suc.prems(2) tk kv by (auto simp: keys_def)
    from Suc.hyps(1) [OF n le sub]
    have "pop_unreachable (keys d) result (Suc i) (A @ (k, v) # drop (Suc i) d) =
            Inr (A @ (k, v) # map fst (filter snd (zip (drop (Suc i) d) (drop (Suc i) result))))"
      by simp
    moreover have "pop_unreachable (keys d) result i (A @ drop i d) =
        pop_unreachable (keys d) result (Suc i) (A @ drop i d)"
      using True i len by (subst pop_unreachable.simps) simp
    ultimately show ?thesis using dd dr kv True by simp
  next
    case False
    from dist i kv have "k \<notin> set (keys (take i d))"
      using distinct_key_not_before [of d i] by simp
    with Suc.prems(2) have "k \<notin> set (keys A)" by blast
    then have pop: "dict_pop k (A @ (k, v) # drop (Suc i) d) = Inr (A @ drop (Suc i) d)"
      by (rule dict_pop_append)
    have sub: "set (keys A) \<subseteq> set (keys (take (Suc i) d))"
      using Suc.prems(2) tk by auto
    from Suc.hyps(1) [OF n le sub]
    have "pop_unreachable (keys d) result (Suc i) (A @ drop (Suc i) d) =
            Inr (A @ map fst (filter snd (zip (drop (Suc i) d) (drop (Suc i) result))))" .
    moreover have "pop_unreachable (keys d) result i (A @ drop i d) =
        (case dict_pop (keys d ! i) (A @ drop i d) of
           Inl e \<Rightarrow> Inl e
         | Inr d' \<Rightarrow> pop_unreachable (keys d) result (Suc i) d')"
      using False i len lk by (subst pop_unreachable.simps) simp
    ultimately show ?thesis using dd dr kv ki pop False by simp
  qed
qed

lemma pop_unreachable_exact:
  assumes "distinct (keys d)" and "length result = length d"
  shows "pop_unreachable (keys d) result 0 d = Inr (map fst (filter snd (zip d result)))"
  using pop_unreachable_exact_aux [OF assms, of 0 "[]"] by (simp add: keys_def)

lemma in_filter_zip_iff:
  assumes "length result = length d"
  shows "p \<in> set (map fst (filter snd (zip d result))) \<longleftrightarrow>
           (\<exists>i<length d. d ! i = p \<and> result ! i)"
  using assms by (auto simp: set_zip image_iff)

lemma mac_match_at_None_take: "mac_match_at s = None \<Longrightarrow> \<not> is_mac (take 17 s)"
proof
  assume n: "mac_match_at s = None" and m: "is_mac (take 17 s)"
  have "prefix (take 17 s) s" by (rule take_is_prefix)
  with m have "mac_match_at s = Some (take 17 s)" by (simp add: mac_match_at_Some)
  with n show False by simp
qed

lemma mac_search_leftmost:
  "mac_search l = Some m \<Longrightarrow>
     \<exists>pre post. l = pre @ m @ post \<and> (\<forall>j<length pre. mac_match_at (drop j l) = None)"
proof (induction l)
  case Nil
  then show ?case by (simp add: mac_match_at_Nil)
next
  case (Cons c cs)
  show ?case
  proof (cases "mac_match_at (c # cs)")
    case (Some m')
    with Cons.prems have "m' = m" by simp
    with Some have "prefix m (c # cs)" by (simp add: mac_match_at_Some)
    then obtain post where "c # cs = [] @ m @ post" by (auto simp: prefix_def)
    then show ?thesis by (metis length_0_conv less_nat_zero_code list.size(3))
  next
    case None
    with Cons.prems have "mac_search cs = Some m" by simp
    from Cons.IH [OF this] obtain pre post where cs: "cs = pre @ m @ post"
      and left: "\<forall>j<length pre. mac_match_at (drop j cs) = None" by blast
    have "\<forall>j<length (c # pre). mac_match_at (drop j (c # cs)) = None"
    proof (intro allI impI)
      fix j assume "j < length (c # pre)"
      then show "mac_match_at (drop j (c # cs)) = None"
        using None left by (cases j) simp_all
    qed
    moreover from cs have "c # cs = (c # pre) @ m @ post" by simp
    ultimately show ?thesis by blast
  qed
qed



lemma pings_completeD:
  assumes "pings_complete E d tr"
  shows "\<forall>i<length (values_of d). \<exists>rc.
           ping_run E (length (pinged (tr @ [Pool_start MULTIPROC_PCOUNT])) +
                       position i (map fst (start_order (pool_pick E) (values_of d))))
             (values_of d ! i) = Inr rc"
proof (intro allI impI)
  fix i assume "i < length (values_of d)"
  then have i: "i < length d" by (simp add: values_of_def)
  with assms have "case ping_run E (launch_number E d tr i) (snd (d ! i)) of
                 Inl e \<Rightarrow> False | Inr rc \<Rightarrow> True"
    by (simp add: pings_complete_def list_all_iff)
  then obtain rc where "ping_run E (launch_number E d tr i) (snd (d ! i)) = Inr rc"
    by (cases "ping_run E (launch_number E d tr i) (snd (d ! i))") simp_all
  with i show "\<exists>rc. ping_run E (length (pinged (tr @ [Pool_start MULTIPROC_PCOUNT])) +
                       position i (map fst (start_order (pool_pick E) (values_of d))))
             (values_of d ! i) = Inr rc"
    by (simp add: values_of_def launch_number_def pinged_append)
qed

lemma filterReachable_pool:
  assumes "pings_complete E d tr"
  shows "pool_map (pool_pick E) (is_ip_reachable E) (values_of d)
           (tr @ [Pool_start MULTIPROC_PCOUNT]) =
         (Inr (probe_outcomes E d tr),
          tr @ Pool_start MULTIPROC_PCOUNT #
            map Run_ping (map snd (start_order (pool_pick E) (values_of d))))"
proof -
  have "map (\<lambda>i. ping_run E (length (pinged (tr @ [Pool_start MULTIPROC_PCOUNT])) +
                       position i (map fst (start_order (pool_pick E) (values_of d))))
             (values_of d ! i) = Inr 0) [0..<length (values_of d)] = probe_outcomes E d tr"
    unfolding probe_outcomes_def
    by (rule map_cong) (simp_all add: values_of_def launch_number_def pinged_append)
  with pool_map_complete [OF pings_completeD [OF assms]] show ?thesis by simp
qed


lemma filterReachable_complete:
  assumes dist: "distinct (keys d)" and comp: "pings_complete E d tr"
  shows "fst (filterReachable E d tr) = Inr (map fst (filter snd (zip d (probe_outcomes E d tr))))"
proof -
  have "length (probe_outcomes E d tr) = length d" by (simp add: probe_outcomes_def)
  with dist have "pop_unreachable (keys d) (probe_outcomes E d tr) 0 d =
                    Inr (map fst (filter snd (zip d (probe_outcomes E d tr))))"
    by (rule pop_unreachable_exact)
  with filterReachable_pool [OF comp] show ?thesis by (simp add: filterReachable_def)
qed


lemma filterReachable_empty:
  "filterReachable E [] tr = (Inr [], tr @ [Pool_start MULTIPROC_PCOUNT])"
  by (simp add: filterReachable_def keys_def values_of_def pool_map_Nil pop_unreachable.simps)

lemma filterReachable_subseq:
  assumes "fst (filterReachable E d tr) = Inr r"
  shows "subseq r d"
proof -
  from assms obtain result tr' where "pop_unreachable (keys d) result 0 d = Inr r"
    by (auto simp: filterReachable_def split: prod.splits sum.splits)
  then show ?thesis by (rule pop_unreachable_subseq)
qed

lemma parse_loop_wellformed:
  assumes "parse_loop lines [] = Inr d" and "(mac, ip) \<in> set d"
  shows "is_mac mac \<and> ip \<noteq> [] \<and> (\<forall>c\<in>set ip. \<not> is_space c)"
proof -
  from parse_loop_entries [OF assms] obtain line rest where
    m: "mac_search line = Some mac" and s: "split_ws line = ip # rest" by auto
  from s have "ip \<in> set (split_ws line)" by simp
  then have "ip \<noteq> [] \<and> (\<forall>c\<in>set ip. \<not> is_space c)" using split_ws_tokens by blast
  with m show ?thesis by (simp add: mac_search_Some_is_mac)
qed

lemma get_all_result:
  assumes "fst (get_all_reachable_lan_devs E tr) = Inr r"
  shows "\<exists>out d. ip_neigh_show E = Inr out \<and> parse_loop (procresultlines out) [] = Inr d \<and> subseq r d"
proof -
  from assms obtain out where out: "ip_neigh_show E = Inr out"
    by (auto simp: get_all_reachable_lan_devs_def split: sum.splits)
  obtain d where d: "parse_loop (procresultlines out) [] = Inr d"
    using parse_loop_total by blast
  show ?thesis
  proof (cases "procresultlines out = []")
    case True
    with assms out d show ?thesis by (auto simp: get_all_reachable_lan_devs_def)
  next
    case False
    with assms out d have "fst (filterReachable E d (tr @ [Run_ip])) = Inr r"
      by (simp add: get_all_reachable_lan_devs_def)
    then have "subseq r d" by (rule filterReachable_subseq)
    with out d show ?thesis by blast
  qed
qed

lemma subseq_set_mono: "subseq xs ys \<Longrightarrow> set xs \<subseteq> set ys"
proof
  fix x assume "subseq xs ys" and "x \<in> set xs"
  then obtain y where "y \<in> set ys" and "x = y" by (rule list_emb_set)
  then show "x \<in> set ys" by simp
qed

lemma prereq_installed_iff:
  "prereq_installed E \<longleftrightarrow>
     (\<exists>p. which E ''ip'' = Some p \<and> p \<noteq> []) \<and> (\<exists>q. which E ''ping'' = Some q \<and> q \<noteq> [])"
  by (auto simp: prereq_installed_def split: option.splits)


section \<open>The claims\<close>

text \<open>
  Claim C9. On a line where the pattern matches there is a character that is not
  whitespace, so \<^verbatim>\<open>line.split()\<close> is not empty and \<^verbatim>\<open>line.split()[0]\<close> is in
  bounds; the parse loop therefore never raises and returns a mapping for every list of
  lines and every starting mapping.
\<close>

theorem first_token_in_bounds:
  "(mac_search line = Some mac \<longrightarrow>
      (\<exists>c\<in>set line. \<not> is_space c) \<and> (\<exists>ip rest. split_ws line = ip # rest)) \<and>
   (\<exists>d. parse_loop lines lan_dev = Inr d)"
  using mac_search_nonspace mac_search_split_ws parse_loop_total by blast

theorem first_token_in_bounds_witness:
  "mac_search ''192.168.1.10 dev eth0 lladdr aa:bb:cc:dd:ee:ff REACHABLE'' = Some ''aa:bb:cc:dd:ee:ff'' \<and>
   (\<exists>c\<in>set ''192.168.1.10 dev eth0 lladdr aa:bb:cc:dd:ee:ff REACHABLE''. \<not> is_space c) \<and>
   (\<exists>ip rest. split_ws ''192.168.1.10 dev eth0 lladdr aa:bb:cc:dd:ee:ff REACHABLE'' = ip # rest) \<and>
   (\<exists>d. parse_loop [''192.168.1.10 dev eth0 lladdr aa:bb:cc:dd:ee:ff REACHABLE'', ''   ''] [] = Inr d)"
proof -
  have h: "mac_search ''192.168.1.10 dev eth0 lladdr aa:bb:cc:dd:ee:ff REACHABLE'' = Some ''aa:bb:cc:dd:ee:ff''"
    by code_simp
  from h first_token_in_bounds
    [of "''192.168.1.10 dev eth0 lladdr aa:bb:cc:dd:ee:ff REACHABLE''" "''aa:bb:cc:dd:ee:ff''"
        "[''192.168.1.10 dev eth0 lladdr aa:bb:cc:dd:ee:ff REACHABLE'', ''   '']" "[]"]
  show ?thesis by blast
qed

text \<open>
  Claim C3. For every list of lines the parse step returns a mapping whose keys are
  pairwise distinct, and each address is mapped to the first token of the last line
  from which it is extracted (and is absent when no line yields it).
\<close>

theorem parse_last_write_wins:
  "\<exists>d. parse_loop lines [] = Inr d \<and> distinct (keys d) \<and>
       (\<forall>mac. map_of d mac = last_line_ip mac lines)"
proof -
  obtain d where d: "parse_loop lines [] = Inr d" using parse_loop_total by blast
  then have "distinct (keys d)" by (rule parse_loop_distinct) (simp add: keys_def)
  moreover have "\<forall>mac. map_of d mac = last_line_ip mac lines"
    using parse_loop_map_of [OF d] by (auto simp: last_line_ip_def split: list.splits)
  ultimately show ?thesis using d by blast
qed

theorem parse_last_write_wins_witness:
  "parse_loop [''192.168.1.10 dev eth0 lladdr aa:bb:cc:dd:ee:ff REACHABLE'',
               ''192.168.1.20 dev eth0 lladdr 11:22:33:44:55:66 STALE'',
               ''192.168.1.30 dev eth0 lladdr aa:bb:cc:dd:ee:ff STALE''] []
     = Inr [(''aa:bb:cc:dd:ee:ff'', ''192.168.1.30''), (''11:22:33:44:55:66'', ''192.168.1.20'')] \<and>
   last_line_ip ''aa:bb:cc:dd:ee:ff''
     [''192.168.1.10 dev eth0 lladdr aa:bb:cc:dd:ee:ff REACHABLE'',
      ''192.168.1.20 dev eth0 lladdr 11:22:33:44:55:66 STALE'',
      ''192.168.1.30 dev eth0 lladdr aa:bb:cc:dd:ee:ff STALE''] = Some ''192.168.1.30''"
proof -
  let ?ls = "[''192.168.1.10 dev eth0 lladdr aa:bb:cc:dd:ee:ff REACHABLE'',
               ''192.168.1.20 dev eth0 lladdr 11:22:33:44:55:66 STALE'',
               ''192.168.1.30 dev eth0 lladdr aa:bb:cc:dd:ee:ff STALE'']"
  let ?d = "[(''aa:bb:cc:dd:ee:ff'', ''192.168.1.30''), (''11:22:33:44:55:66'', ''192.168.1.20'')]"
  have p: "parse_loop ?ls [] = Inr ?d" by code_simp
  from parse_last_write_wins [of ?ls] obtain d where h: "parse_loop ?ls [] = Inr d"
    and m: "\<forall>mac. map_of d mac = last_line_ip mac ?ls" by blast
  from h [unfolded p] have dd: "d = ?d" by simp
  from m have "last_line_ip ''aa:bb:cc:dd:ee:ff'' ?ls = map_of d ''aa:bb:cc:dd:ee:ff''" by simp
  also have "\<dots> = Some ''192.168.1.30''" unfolding dd by simp
  finally show ?thesis using p by blast
qed

text \<open>
  Claim C4. A line in which no part has the form of six groups of two hexadecimal
  digits separated by \<^verbatim>\<open>:\<close> or \<^verbatim>\<open>-\<close> leaves the mapping as it was; the parse step
  over any lines is the parse step over the lines that contain such a part; the empty
  line contains none and is dropped before the loop, so parsing a text is parsing those
  of its lines that contain an address.
\<close>

theorem parse_skips_unmatched:
  "(\<not> contains_mac line \<longrightarrow> parse_loop (line # lines) d = parse_loop lines d) \<and>
   parse_loop lines d = parse_loop (filter contains_mac lines) d \<and>
   \<not> contains_mac [] \<and>
   [] \<notin> set (procresultlines out) \<and>
   parse_loop (procresultlines out) d = parse_loop (filter contains_mac (split_nl out)) d"
proof -
  have eq: "(\<lambda>l. mac_search l \<noteq> None) = contains_mac"
    by (simp add: fun_eq_iff mac_search_None_iff)
  have f: "\<And>ls. parse_loop ls d = parse_loop (filter contains_mac ls) d"
    unfolding eq [symmetric] by (rule parse_loop_filter)
  have n: "\<not> contains_mac []"
    using mac_search_None_iff [of "[]"] by (simp add: mac_match_at_Nil)
  have "filter contains_mac (procresultlines out) = filter contains_mac (split_nl out)"
    unfolding procresultlines_def filter_filter
    by (rule filter_cong) (use n in auto)
  with f [of "procresultlines out"] have
    "parse_loop (procresultlines out) d = parse_loop (filter contains_mac (split_nl out)) d"
    by simp
  moreover have "\<not> contains_mac line \<longrightarrow> parse_loop (line # lines) d = parse_loop lines d"
    by (simp add: mac_search_None_iff [symmetric])
  moreover have "[] \<notin> set (procresultlines out)" by (simp add: procresultlines_def)
  ultimately show ?thesis using f n by blast
qed

theorem parse_skips_unmatched_witness:
  "\<not> contains_mac ''192.168.1.11 dev eth0 FAILED'' \<and>
   parse_loop [''192.168.1.11 dev eth0 FAILED'',
               ''192.168.1.10 dev eth0 lladdr aa:bb:cc:dd:ee:ff REACHABLE''] []
     = Inr [(''aa:bb:cc:dd:ee:ff'', ''192.168.1.10'')]"
proof -
  have "mac_search ''192.168.1.11 dev eth0 FAILED'' = None" by code_simp
  with mac_search_None_iff have n: "\<not> contains_mac ''192.168.1.11 dev eth0 FAILED''"
    by blast
  have p: "parse_loop [''192.168.1.10 dev eth0 lladdr aa:bb:cc:dd:ee:ff REACHABLE''] []
             = Inr [(''aa:bb:cc:dd:ee:ff'', ''192.168.1.10'')]" by code_simp
  from parse_skips_unmatched
         [of "''192.168.1.11 dev eth0 FAILED''"
             "[''192.168.1.10 dev eth0 lladdr aa:bb:cc:dd:ee:ff REACHABLE'']" "[]"] n
  have "parse_loop [''192.168.1.11 dev eth0 FAILED'',
               ''192.168.1.10 dev eth0 lladdr aa:bb:cc:dd:ee:ff REACHABLE''] []
        = parse_loop [''192.168.1.10 dev eth0 lladdr aa:bb:cc:dd:ee:ff REACHABLE''] []"
    by blast
  with p n show ?thesis by (simp only: simp_thms)
qed

text \<open>
  Claim C2, as stated, fails: from a line that writes the address with hyphens and
  capital digits, the key stored is that text, which differs from its lower-case,
  colon-delimited form.
\<close>

theorem mac_key_not_normalized:
  "mac_search ''192.168.1.10 dev eth0 lladdr AA-BB-CC-DD-EE-FF REACHABLE'' = Some ''AA-BB-CC-DD-EE-FF'' \<and>
   parse_loop [''192.168.1.10 dev eth0 lladdr AA-BB-CC-DD-EE-FF REACHABLE''] []
     = Inr [(''AA-BB-CC-DD-EE-FF'', ''192.168.1.10'')] \<and>
   spec_normalize_mac ''AA-BB-CC-DD-EE-FF'' = ''aa:bb:cc:dd:ee:ff'' \<and>
   ''AA-BB-CC-DD-EE-FF'' \<noteq> spec_normalize_mac ''AA-BB-CC-DD-EE-FF''"
  by code_simp

text \<open>
  Claim C2, amended. On a line where the pattern matches, the key stored is the leftmost
  part of the line that has the form of an address, exactly as the line writes it: no
  earlier position of the line starts an address, the first token of the line is stored
  under that key, and the key is not rewritten.
\<close>

theorem mac_key_is_matched_text:
  assumes "mac_search line = Some mac"
  shows "is_mac mac \<and>
         (\<exists>pre post. line = pre @ mac @ post \<and>
            (\<forall>j<length pre. \<not> is_mac (take 17 (drop j line)))) \<and>
         (\<exists>ip rest. split_ws line = ip # rest \<and>
            parse_loop (line # lines) d = parse_loop lines (dict_set mac ip d) \<and>
            parse_loop [line] [] = Inr [(mac, ip)])"
proof -
  from assms have "is_mac mac" by (simp add: mac_search_Some_is_mac)
  moreover from mac_search_leftmost [OF assms] obtain pre post where
    "line = pre @ mac @ post" and "\<forall>j<length pre. mac_match_at (drop j line) = None" by blast
  then have "\<exists>pre post. line = pre @ mac @ post \<and>
            (\<forall>j<length pre. \<not> is_mac (take 17 (drop j line)))"
    using mac_match_at_None_take by blast
  moreover from assms obtain ip rest where "split_ws line = ip # rest"
    using mac_search_split_ws by blast
  with assms have "\<exists>ip rest. split_ws line = ip # rest \<and>
            parse_loop (line # lines) d = parse_loop lines (dict_set mac ip d) \<and>
            parse_loop [line] [] = Inr [(mac, ip)]" by simp
  ultimately show ?thesis by blast
qed

theorem mac_key_is_matched_text_witness:
  "mac_search ''192.168.1.40 dev eth0 lladdr 0A-1b-2C-3d-4E-5f STALE'' = Some ''0A-1b-2C-3d-4E-5f'' \<and>
   is_mac ''0A-1b-2C-3d-4E-5f'' \<and>
   (\<exists>ip rest. split_ws ''192.168.1.40 dev eth0 lladdr 0A-1b-2C-3d-4E-5f STALE'' = ip # rest \<and>
      parse_loop [''192.168.1.40 dev eth0 lladdr 0A-1b-2C-3d-4E-5f STALE''] [] = Inr [(''0A-1b-2C-3d-4E-5f'', ip)])"
proof -
  have h: "mac_search ''192.168.1.40 dev eth0 lladdr 0A-1b-2C-3d-4E-5f STALE'' = Some ''0A-1b-2C-3d-4E-5f''"
    by code_simp
  from mac_key_is_matched_text [OF h] h show ?thesis by blast
qed

text \<open>
  Claim C5, amended. The probe returns true exactly when the ping process completes with
  return code 0, false exactly when it completes with another return code (which is how
  ping reports no answer within its wait, a negative answer, and an error of its own),
  and raises exactly when the process cannot be started; every call starts one ping.
\<close>

theorem is_ip_reachable_returncode:
  "(fst (is_ip_reachable E ip tr) = Inr True \<longleftrightarrow> ping_run E (length (pinged tr)) ip = Inr 0) \<and>
   (fst (is_ip_reachable E ip tr) = Inr False \<longleftrightarrow>
      (\<exists>rc. rc \<noteq> 0 \<and> ping_run E (length (pinged tr)) ip = Inr rc)) \<and>
   (fst (is_ip_reachable E ip tr) = Inl e \<longleftrightarrow> ping_run E (length (pinged tr)) ip = Inl e) \<and>
   snd (is_ip_reachable E ip tr) = tr @ [Run_ping ip]"
  by (auto simp: is_ip_reachable_def split: sum.splits)

theorem is_ip_reachable_returncode_witness:
  "fst (is_ip_reachable host_scenario_C ''192.168.1.10'' []) = Inr True \<and>
   fst (is_ip_reachable host_scenario_C ''192.168.1.20'' []) = Inr False"
proof -
  have "ping_run host_scenario_C (length (pinged [])) ''192.168.1.10'' = Inr 0"
    by (simp add: host_scenario_C_def ping_scenario_C_def)
  moreover have "(1::int) \<noteq> 0 \<and> ping_run host_scenario_C (length (pinged [])) ''192.168.1.20'' = Inr 1"
    by (simp add: host_scenario_C_def ping_scenario_C_def)
  ultimately show ?thesis
    using is_ip_reachable_returncode [of host_scenario_C "''192.168.1.10''" "[]"]
      is_ip_reachable_returncode [of host_scenario_C "''192.168.1.20''" "[]"]
    by blast
qed

text \<open>
  Claim C5, as stated, fails: when the ping process cannot be started, the probe raises
  and does not return false.
\<close>

theorem is_ip_reachable_raises:
  "fst (is_ip_reachable host_ping_cannot_start ''192.168.1.10'' []) = Inl OSError \<and>
   fst (is_ip_reachable host_ping_cannot_start ''192.168.1.10'' []) \<noteq> Inr False"
  by (simp add: is_ip_reachable_def host_ping_cannot_start_def ping_cannot_start_def)

text \<open>
  Claim C1. For every candidate mapping, every order in which the pool starts the
  pings and every way the pings end (each one completing with some return code), the
  filtering stage returns the candidates paired with their own outcome by position and
  keeps those whose outcome is true: an entry is in the result exactly when it stands
  at a position of the candidate list whose ping, the one started for that entry's
  address, returned 0.
\<close>

theorem filterReachable_exact:
  assumes "distinct (keys lan_dev)" and "pings_complete E lan_dev tr"
  shows "fst (filterReachable E lan_dev tr) =
           Inr (map fst (filter snd (zip lan_dev (probe_outcomes E lan_dev tr)))) \<and>
         (\<forall>mac ip. (mac, ip) \<in> set (map fst (filter snd (zip lan_dev (probe_outcomes E lan_dev tr))))
            \<longleftrightarrow> (\<exists>i<length lan_dev. lan_dev ! i = (mac, ip) \<and> probe_outcomes E lan_dev tr ! i))"
proof -
  have len: "length (probe_outcomes E lan_dev tr) = length lan_dev"
    by (simp add: probe_outcomes_def)
  have "\<forall>mac ip. (mac, ip) \<in> set (map fst (filter snd (zip lan_dev (probe_outcomes E lan_dev tr))))
            \<longleftrightarrow> (\<exists>i<length lan_dev. lan_dev ! i = (mac, ip) \<and> probe_outcomes E lan_dev tr ! i)"
    by (intro allI in_filter_zip_iff [OF len])
  with filterReachable_complete [OF assms] show ?thesis by (intro conjI)
qed

theorem filterReachable_exact_witness:
  "distinct (keys candidates_scenario_C) \<and>
   pings_complete host_scenario_C candidates_scenario_C [] \<and>
   probe_outcomes host_scenario_C candidates_scenario_C [] = [True, False] \<and>
   fst (filterReachable host_scenario_C candidates_scenario_C []) =
     Inr [(''aa:bb:cc:dd:ee:ff'', ''192.168.1.10'')] \<and>
   probe_outcomes host_first_only candidates_same_ip [] = [True, False] \<and>
   fst (filterReachable host_first_only candidates_same_ip []) =
     Inr [(''aa:bb:cc:dd:ee:ff'', ''192.168.1.10'')] \<and>
   probe_outcomes host_second_first candidates_same_ip [] = [False, True] \<and>
   fst (filterReachable host_second_first candidates_same_ip []) =
     Inr [(''11:22:33:44:55:66'', ''192.168.1.10'')]"
proof -
  have d'': "distinct (keys candidates_same_ip)" by code_simp
  have c'': "pings_complete host_second_first candidates_same_ip []" by code_simp
  have o'': "probe_outcomes host_second_first candidates_same_ip [] = [False, True]" by code_simp
  have "map fst (filter snd (zip candidates_same_ip [False, True])) =
          [(''11:22:33:44:55:66'', ''192.168.1.10'')]" by code_simp
  with filterReachable_exact [OF d'' c''] o''
  have s'': "fst (filterReachable host_second_first candidates_same_ip []) =
     Inr [(''11:22:33:44:55:66'', ''192.168.1.10'')]" by simp
  have c': "pings_complete host_first_only candidates_same_ip []" by code_simp
  have o': "probe_outcomes host_first_only candidates_same_ip [] = [True, False]" by code_simp
  have "map fst (filter snd (zip candidates_same_ip [True, False])) =
          [(''aa:bb:cc:dd:ee:ff'', ''192.168.1.10'')]" by code_simp
  with filterReachable_exact [OF d'' c'] o'
  have s': "fst (filterReachable host_first_only candidates_same_ip []) =
     Inr [(''aa:bb:cc:dd:ee:ff'', ''192.168.1.10'')]" by simp
  have d: "distinct (keys candidates_scenario_C)" by code_simp
  have c: "pings_complete host_scenario_C candidates_scenario_C []" by code_simp
  have o: "probe_outcomes host_scenario_C candidates_scenario_C [] = [True, False]" by code_simp
  have "map fst (filter snd (zip candidates_scenario_C [True, False])) =
          [(''aa:bb:cc:dd:ee:ff'', ''192.168.1.10'')]" by code_simp
  with filterReachable_exact [OF d c] o
  have "fst (filterReachable host_scenario_C candidates_scenario_C []) =
     Inr [(''aa:bb:cc:dd:ee:ff'', ''192.168.1.10'')]" by simp
  with d c o o' s' o'' s'' show ?thesis by blast
qed




text \<open>
  Claim C6, as stated, fails. When the neighbour table has lines but none yields a
  candidate, the function does not return at once: it creates the pool of five workers
  first. Only with no line at all does it return right after running \<^verbatim>\<open>ip\<close>.
\<close>

theorem pool_created_without_candidates:
  "procresultlines (''192.168.1.11 dev eth0 FAILED'' @ [CHR 0x0A]) = [''192.168.1.11 dev eth0 FAILED''] \<and>
   parse_loop [''192.168.1.11 dev eth0 FAILED''] [] = Inr [] \<and>
   get_all_reachable_lan_devs host_unresolved [] = (Inr [], [Run_ip, Pool_start 5]) \<and>
   get_all_reachable_lan_devs host_no_neighbours [] = (Inr [], [Run_ip])"
  by code_simp

text \<open>
  Claim C6, amended. With no candidates the filtering stage returns the empty mapping
  and starts no ping. When the neighbour table has no non-empty line, the function
  returns the empty mapping right after running \<^verbatim>\<open>ip\<close>, before any pool exists. When
  it has lines but none yields a candidate, the function creates the pool, hands it no
  task, and returns the empty mapping; no ping is started in either case.
\<close>

theorem no_candidates_no_probe:
  "filterReachable E [] tr = (Inr [], tr @ [Pool_start MULTIPROC_PCOUNT]) \<and>
   pinged (snd (filterReachable E [] tr)) = pinged tr \<and>
   (ip_neigh_show E = Inr out \<and> procresultlines out = [] \<longrightarrow>
      get_all_reachable_lan_devs E tr = (Inr [], tr @ [Run_ip])) \<and>
   (ip_neigh_show E = Inr out \<and> procresultlines out \<noteq> [] \<and>
    parse_loop (procresultlines out) [] = Inr [] \<longrightarrow>
      get_all_reachable_lan_devs E tr = (Inr [], tr @ [Run_ip, Pool_start MULTIPROC_PCOUNT])) \<and>
   (ip_neigh_show E = Inr out \<and> parse_loop (procresultlines out) [] = Inr [] \<longrightarrow>
      fst (get_all_reachable_lan_devs E tr) = Inr [] \<and>
      pinged (snd (get_all_reachable_lan_devs E tr)) = pinged tr)"
proof -
  have e: "filterReachable E [] tr = (Inr [], tr @ [Pool_start MULTIPROC_PCOUNT])" for tr
    by (rule filterReachable_empty)
  have "pinged (snd (filterReachable E [] tr)) = pinged tr"
    by (simp add: e pinged_append)
  moreover have "ip_neigh_show E = Inr out \<and> procresultlines out = [] \<longrightarrow>
      get_all_reachable_lan_devs E tr = (Inr [], tr @ [Run_ip])"
    by (simp add: get_all_reachable_lan_devs_def)
  moreover have "ip_neigh_show E = Inr out \<and> procresultlines out \<noteq> [] \<and>
    parse_loop (procresultlines out) [] = Inr [] \<longrightarrow>
      get_all_reachable_lan_devs E tr = (Inr [], tr @ [Run_ip, Pool_start MULTIPROC_PCOUNT])"
    by (simp add: get_all_reachable_lan_devs_def e)
  moreover have "ip_neigh_show E = Inr out \<and> parse_loop (procresultlines out) [] = Inr [] \<longrightarrow>
      fst (get_all_reachable_lan_devs E tr) = Inr [] \<and>
      pinged (snd (get_all_reachable_lan_devs E tr)) = pinged tr"
    by (simp add: get_all_reachable_lan_devs_def e pinged_append)
  ultimately show ?thesis using e by blast
qed

theorem no_candidates_no_probe_witness:
  "get_all_reachable_lan_devs host_no_neighbours [] = (Inr [], [Run_ip]) \<and>
   get_all_reachable_lan_devs host_unresolved [] = (Inr [], [Run_ip, Pool_start MULTIPROC_PCOUNT]) \<and>
   fst (get_all_reachable_lan_devs host_unresolved []) = Inr [] \<and>
   pinged (snd (get_all_reachable_lan_devs host_unresolved [])) = []"
proof -
  have a: "ip_neigh_show host_no_neighbours = Inr [] \<and> procresultlines [] = []"
    by code_simp
  have b: "ip_neigh_show host_unresolved = Inr (''192.168.1.11 dev eth0 FAILED'' @ [CHR 0x0A]) \<and>
           procresultlines (''192.168.1.11 dev eth0 FAILED'' @ [CHR 0x0A]) \<noteq> [] \<and>
           parse_loop (procresultlines (''192.168.1.11 dev eth0 FAILED'' @ [CHR 0x0A])) [] = Inr []"
    by code_simp
  from no_candidates_no_probe [of host_no_neighbours "[]" "[]"] a
  have "get_all_reachable_lan_devs host_no_neighbours [] = (Inr [], [] @ [Run_ip])" by blast
  moreover from no_candidates_no_probe
    [of host_unresolved "[]" "''192.168.1.11 dev eth0 FAILED'' @ [CHR 0x0A]"] b
  have "get_all_reachable_lan_devs host_unresolved [] =
          (Inr [], [] @ [Run_ip, Pool_start MULTIPROC_PCOUNT]) \<and>
        fst (get_all_reachable_lan_devs host_unresolved []) = Inr [] \<and>
        pinged (snd (get_all_reachable_lan_devs host_unresolved [])) = pinged []" by blast
  ultimately show ?thesis by simp
qed

text \<open>
  Claim C10. Every key of the mapping returned by \<^verbatim>\<open>get_all_reachable_lan_devs\<close> has
  the form of an address, and every value is a non-empty token without whitespace. The
  filtering stage returns a subsequence of its candidates: it removes entries and
  changes none.
\<close>

theorem reachable_devs_wellformed:
  "(fst (get_all_reachable_lan_devs E tr) = Inr r \<longrightarrow>
      (\<forall>(mac, ip)\<in>set r. is_mac mac \<and> ip \<noteq> [] \<and> (\<forall>c\<in>set ip. \<not> is_space c))) \<and>
   (fst (filterReachable E lan_dev tr) = Inr r' \<longrightarrow> subseq r' lan_dev)"
proof (intro conjI impI)
  assume "fst (get_all_reachable_lan_devs E tr) = Inr r"
  from get_all_result [OF this] obtain out d where
    d: "parse_loop (procresultlines out) [] = Inr d" and s: "subseq r d" by blast
  from s have "set r \<subseteq> set d" by (rule subseq_set_mono)
  then show "\<forall>(mac, ip)\<in>set r. is_mac mac \<and> ip \<noteq> [] \<and> (\<forall>c\<in>set ip. \<not> is_space c)"
    using parse_loop_wellformed [OF d] by blast
next
  assume "fst (filterReachable E lan_dev tr) = Inr r'"
  then show "subseq r' lan_dev" by (rule filterReachable_subseq)
qed

theorem reachable_devs_wellformed_witness:
  "fst (get_all_reachable_lan_devs host_scenario_C []) = Inr [(''aa:bb:cc:dd:ee:ff'', ''192.168.1.10'')] \<and>
   is_mac ''aa:bb:cc:dd:ee:ff'' \<and> ''192.168.1.10'' \<noteq> [] \<and>
   list_all (\<lambda>c. \<not> is_space c) ''192.168.1.10''"
proof -
  have g: "fst (get_all_reachable_lan_devs host_scenario_C []) = Inr [(''aa:bb:cc:dd:ee:ff'', ''192.168.1.10'')]"
    by code_simp
  from reachable_devs_wellformed [of host_scenario_C "[]" "[(''aa:bb:cc:dd:ee:ff'', ''192.168.1.10'')]"] g
  have "\<forall>(mac, ip)\<in>set [(''aa:bb:cc:dd:ee:ff'', ''192.168.1.10'')].
          is_mac mac \<and> ip \<noteq> [] \<and> (\<forall>c\<in>set ip. \<not> is_space c)" by blast
  then have "is_mac ''aa:bb:cc:dd:ee:ff'' \<and> ''192.168.1.10'' \<noteq> [] \<and>
      list_all (\<lambda>c. \<not> is_space c) ''192.168.1.10''"
    unfolding list_all_iff by simp
  with g show ?thesis by blast
qed

text \<open>
  Claim C8, as stated, fails. With \<^verbatim>\<open>ip\<close> and \<^verbatim>\<open>ping\<close> found and no help asked
  for, discovery runs; when the ping process cannot be started the exception reaches
  the top of the program, which then ends with status 1, not 0.
\<close>

theorem main_uncaught_exception:
  "\<not> is_help_request [''landevlist''] \<and>
   prereq_installed host_ping_cannot_start \<and>
   main [''landevlist''] host_ping_cannot_start [] =
     ([], Inl OSError,
      [Run_ip, Pool_start 5, Run_ping ''192.168.1.10'', Run_ping ''192.168.1.20'']) \<and>
   exit_status (fst (snd (main [''landevlist''] host_ping_cannot_start []))) = 1"
  by code_simp

text \<open>
  Claim C8, amended. When the first argument is one of \<^verbatim>\<open>help\<close>, \<^verbatim>\<open>-help\<close>,
  \<^verbatim>\<open>--help\<close>, \<^verbatim>\<open>/help\<close>, the program prints the five lines of the usage and exits
  with status 0, and nothing is run. Otherwise, when \<^verbatim>\<open>ip\<close> or \<^verbatim>\<open>ping\<close> is not
  found, it prints the eight lines of the dependency guidance and exits with status 1,
  and nothing is run. Otherwise discovery runs: when it returns a mapping the program
  exits with status 0, also when the mapping is empty, which it reports in one line;
  when discovery raises, nothing is printed, the exception is not caught and the
  process ends with status 1.
\<close>

theorem main_exit_status:
  "(is_help_request argv \<longleftrightarrow>
      1 < length argv \<and> argv ! 1 \<in> {''help'', ''-help'', ''--help'', ''/help''}) \<and>
   (prereq_installed E \<longleftrightarrow>
      (\<exists>p. which E ''ip'' = Some p \<and> p \<noteq> []) \<and> (\<exists>q. which E ''ping'' = Some q \<and> q \<noteq> [])) \<and>
   (is_help_request argv \<longrightarrow>
      main argv E tr =
        ([''Usage: landevlist'',
          ''Lists devices connected to the local network (LAN) with their MAC and IPv4 addresses.'' @ [CHR 0x0A],
          ''Output is formatted in a tabular structure for readability.'',
          ''Only devices with an active connection will be displayed.'' @ [CHR 0x0A],
          ''Copyright (c) 2025-Present Arijit Kumar Das <arijitkdgit.official@gmail.com> under MIT License.'' @ [CHR 0x0A]],
         Inr 0, tr)) \<and>
   (\<not> is_help_request argv \<and> \<not> prereq_installed E \<longrightarrow>
      main argv E tr =
        ([''landevlist: A required program was not found on your system.'',
          ''Required programs are: ip, ping'',
          ''Make sure these packages are installed:'',
          ''* iputils-ping (on Debian/Ubuntu), or'',
          ''  iputils (on Arch/RHEL/Fedora)'',
          ''* iproute2 (on Debian/Ubuntu/Arch), or'',
          ''  iproute (on RHEL/Fedora)'',
          ''Please note that package name may vary based on your distro repository upstream.''],
         Inr 1, tr)) \<and>
   (\<not> is_help_request argv \<and> prereq_installed E \<and>
    get_all_reachable_lan_devs E tr = (Inr reachable_devs, tr') \<longrightarrow>
      fst (snd (main argv E tr)) = Inr 0 \<and>
      exit_status (fst (snd (main argv E tr))) = 0 \<and>
      snd (snd (main argv E tr)) = tr' \<and>
      (reachable_devs = [] \<longrightarrow> fst (main argv E tr) = [''No active devices on local network.''])) \<and>
   (\<not> is_help_request argv \<and> prereq_installed E \<and>
    get_all_reachable_lan_devs E tr = (Inl e, tr') \<longrightarrow>
      main argv E tr = ([], Inl e, tr') \<and>
      exit_status (fst (snd (main argv E tr))) = 1)"
proof -
  have "is_help_request argv \<longleftrightarrow>
      1 < length argv \<and> argv ! 1 \<in> {''help'', ''-help'', ''--help'', ''/help''}"
    by (simp add: is_help_request_def)
  moreover have "is_help_request argv \<longrightarrow>
      main argv E tr =
        ([''Usage: landevlist'',
          ''Lists devices connected to the local network (LAN) with their MAC and IPv4 addresses.'' @ [CHR 0x0A],
          ''Output is formatted in a tabular structure for readability.'',
          ''Only devices with an active connection will be displayed.'' @ [CHR 0x0A],
          ''Copyright (c) 2025-Present Arijit Kumar Das <arijitkdgit.official@gmail.com> under MIT License.'' @ [CHR 0x0A]],
         Inr 0, tr)"
    by (simp add: main_def is_help_request_def show_help_def)
  moreover have "\<not> is_help_request argv \<and> \<not> prereq_installed E \<longrightarrow>
      main argv E tr =
        ([''landevlist: A required program was not found on your system.'',
          ''Required programs are: ip, ping'',
          ''Make sure these packages are installed:'',
          ''* iputils-ping (on Debian/Ubuntu), or'',
          ''  iputils (on Arch/RHEL/Fedora)'',
          ''* iproute2 (on Debian/Ubuntu/Arch), or'',
          ''  iproute (on RHEL/Fedora)'',
          ''Please note that package name may vary based on your distro repository upstream.''],
         Inr 1, tr)"
    by (auto simp: main_def is_help_request_def show_missing_dependency_def)
  moreover have "\<not> is_help_request argv \<and> prereq_installed E \<and>
    get_all_reachable_lan_devs E tr = (Inr reachable_devs, tr') \<longrightarrow>
      fst (snd (main argv E tr)) = Inr 0 \<and>
      exit_status (fst (snd (main argv E tr))) = 0 \<and>
      snd (snd (main argv E tr)) = tr' \<and>
      (reachable_devs = [] \<longrightarrow> fst (main argv E tr) = [''No active devices on local network.''])"
    by (auto simp: main_def is_help_request_def exit_status_def)
  moreover have "\<not> is_help_request argv \<and> prereq_installed E \<and>
    get_all_reachable_lan_devs E tr = (Inl e, tr') \<longrightarrow>
      main argv E tr = ([], Inl e, tr') \<and>
      exit_status (fst (snd (main argv E tr))) = 1"
    by (auto simp: main_def is_help_request_def exit_status_def)
  ultimately show ?thesis using prereq_installed_iff [of E] by blast
qed

theorem main_exit_status_witness:
  "main [''landevlist'', ''--help''] host_no_ping [] = (show_help, Inr 0, []) \<and>
   main [''landevlist''] host_no_ping [] = (show_missing_dependency, Inr 1, []) \<and>
   fst (snd (main [''landevlist''] host_scenario_C [])) = Inr 0 \<and>
   snd (snd (main [''landevlist''] host_scenario_C [])) =
     [Run_ip, Pool_start 5, Run_ping ''192.168.1.10'', Run_ping ''192.168.1.20''] \<and>
   fst (snd (main [''landevlist'', ''scan''] host_no_neighbours [])) = Inr 0 \<and>
   fst (main [''landevlist'', ''scan''] host_no_neighbours []) = [''No active devices on local network.''] \<and>
   main [''landevlist''] host_ping_cannot_start [] =
     ([], Inl OSError,
      [Run_ip, Pool_start 5, Run_ping ''192.168.1.10'', Run_ping ''192.168.1.20''])"
proof -
  have h1: "is_help_request [''landevlist'', ''--help'']" by code_simp
  have h2: "\<not> is_help_request [''landevlist''] \<and> \<not> prereq_installed host_no_ping" by code_simp
  have h3: "\<not> is_help_request [''landevlist''] \<and> prereq_installed host_scenario_C \<and>
    get_all_reachable_lan_devs host_scenario_C [] =
      (Inr [(''aa:bb:cc:dd:ee:ff'', ''192.168.1.10'')],
       [Run_ip, Pool_start 5, Run_ping ''192.168.1.10'', Run_ping ''192.168.1.20''])" by code_simp
  have h4: "\<not> is_help_request [''landevlist'', ''scan''] \<and> prereq_installed host_no_neighbours \<and>
    get_all_reachable_lan_devs host_no_neighbours [] = (Inr [], [Run_ip])" by code_simp
  have h5: "\<not> is_help_request [''landevlist''] \<and> prereq_installed host_ping_cannot_start \<and>
    get_all_reachable_lan_devs host_ping_cannot_start [] =
      (Inl OSError, [Run_ip, Pool_start 5, Run_ping ''192.168.1.10'', Run_ping ''192.168.1.20''])"
    by code_simp
  have s1: "show_help = [''Usage: landevlist'',
          ''Lists devices connected to the local network (LAN) with their MAC and IPv4 addresses.'' @ [CHR 0x0A],
          ''Output is formatted in a tabular structure for readability.'',
          ''Only devices with an active connection will be displayed.'' @ [CHR 0x0A],
          ''Copyright (c) 2025-Present Arijit Kumar Das <arijitkdgit.official@gmail.com> under MIT License.'' @ [CHR 0x0A]]"
    by (simp add: show_help_def)
  have s2: "show_missing_dependency = [''landevlist: A required program was not found on your system.'',
          ''Required programs are: ip, ping'',
          ''Make sure these packages are installed:'',
          ''* iputils-ping (on Debian/Ubuntu), or'',
          ''  iputils (on Arch/RHEL/Fedora)'',
          ''* iproute2 (on Debian/Ubuntu/Arch), or'',
          ''  iproute (on RHEL/Fedora)'',
          ''Please note that package name may vary based on your distro repository upstream.'']"
    by (simp add: show_missing_dependency_def)
  from main_exit_status [of "[''landevlist'', ''--help'']" host_no_ping "[]"] h1
  have "main [''landevlist'', ''--help''] host_no_ping [] = (show_help, Inr 0, [])"
    unfolding s1 by blast
  moreover from main_exit_status [of "[''landevlist'']" host_no_ping "[]"] h2
  have "main [''landevlist''] host_no_ping [] = (show_missing_dependency, Inr 1, [])"
    unfolding s2 by blast
  moreover from main_exit_status [of "[''landevlist'']" host_scenario_C "[]"
      "[(''aa:bb:cc:dd:ee:ff'', ''192.168.1.10'')]"
      "[Run_ip, Pool_start 5, Run_ping ''192.168.1.10'', Run_ping ''192.168.1.20'']"] h3
  have "fst (snd (main [''landevlist''] host_scenario_C [])) = Inr 0 \<and>
   snd (snd (main [''landevlist''] host_scenario_C [])) =
     [Run_ip, Pool_start 5, Run_ping ''192.168.1.10'', Run_ping ''192.168.1.20'']" by blast
  moreover from main_exit_status [of "[''landevlist'', ''scan'']" host_no_neighbours "[]" "[]" "[Run_ip]"] h4
  have "fst (snd (main [''landevlist'', ''scan''] host_no_neighbours [])) = Inr 0 \<and>
   fst (main [''landevlist'', ''scan''] host_no_neighbours []) = [''No active devices on local network.'']"
    by blast
  moreover from main_exit_status [of "[''landevlist'']" host_ping_cannot_start "[]" _
      "[Run_ip, Pool_start 5, Run_ping ''192.168.1.10'', Run_ping ''192.168.1.20'']" OSError] h5
  have "main [''landevlist''] host_ping_cannot_start [] =
     ([], Inl OSError,
      [Run_ip, Pool_start 5, Run_ping ''192.168.1.10'', Run_ping ''192.168.1.20''])" by blast
  ultimately show ?thesis by blast
qed

end
